theory Spec2Isabelle
  imports Complex_Main
begin

section \<open>Constants (lib/constants.js)\<close>

definition RATE_LIMIT :: nat where
  "RATE_LIMIT = 10"

definition RATE_LIMIT_BUFFER :: nat where
  "RATE_LIMIT_BUFFER = 2"

text \<open>
  \<open>MATCH_STATUS\<close>: the nine status strings the program names. The remote source may
  send any other string; \<open>OTHER s\<close> stands for a status \<open>s\<close> that is none of the nine.
\<close>

datatype match_status =
  SCHEDULED | TIMED | IN_PLAY | PAUSED | FINISHED | SUSPENDED | POSTPONED | CANCELLED | AWARDED
  | OTHER string

definition LIVE_STATUSES :: "match_status list" where
  "LIVE_STATUSES = [IN_PLAY, PAUSED]"

definition UPCOMING_STATUSES :: "match_status list" where
  "UPCOMING_STATUSES = [SCHEDULED, TIMED]"

definition COMPLETED_STATUSES :: "match_status list" where
  "COMPLETED_STATUSES = [FINISHED, AWARDED]"

text \<open>
  \<open>POLLING_STATE\<close>. The state named PAUSED in the source is \<open>POLL_PAUSED\<close> here, since
  \<open>PAUSED\<close> is already the match status; the other states carry the same prefix.
\<close>

datatype polling_state = POLL_IDLE | POLL_PRE_MATCH | POLL_LIVE | POLL_PAUSED | POLL_POST_MATCH

text \<open>\<open>POLLING_INTERVALS\<close>, in milliseconds.\<close>

fun POLLING_INTERVALS :: "polling_state \<Rightarrow> nat" where
  "POLLING_INTERVALS POLL_IDLE = 15 * 60 * 1000"
| "POLLING_INTERVALS POLL_PRE_MATCH = 5 * 60 * 1000"
| "POLLING_INTERVALS POLL_LIVE = 30 * 1000"
| "POLLING_INTERVALS POLL_PAUSED = 2 * 60 * 1000"
| "POLLING_INTERVALS POLL_POST_MATCH = 5 * 60 * 1000"

definition MATCH_SOON_THRESHOLDS :: "nat list" where
  "MATCH_SOON_THRESHOLDS = [15, 30, 60, 120]"

datatype event_name =
  TEAM_SCORED | TEAM_CONCEDED | MATCH_KICKOFF | HALFTIME_STARTED | SECOND_HALF_STARTED
  | EXTRA_TIME_STARTED | MATCH_FINISHED | TEAM_WON | TEAM_LOST | TEAM_DREW
  | MATCH_STARTS_SOON | MATCH_RESULT_CHANGED

section \<open>Data (lib/MatchManager.js)\<close>

text \<open>
  A match as the remote source sends it. Team and match identifiers are numbers;
  \<open>utcDate\<close> is the ISO-8601 kickoff instant read as milliseconds since the epoch, which
  is what \<open>new Date(m.utcDate)\<close> yields; \<open>fullTimeHome\<close> and \<open>fullTimeAway\<close> are
  \<open>score?.fullTime?.home\<close> and \<open>score?.fullTime?.away\<close>, \<open>None\<close> when null or missing;
  \<open>minute\<close> is \<open>None\<close> when missing. Display names and the competition name are copied
  into the cache by the source but read by no decision, and are left out.
\<close>

record match =
  match_id :: nat
  status :: match_status
  utcDate :: int
  fullTimeHome :: "nat option"
  fullTimeAway :: "nat option"
  homeTeam :: nat
  awayTeam :: nat
  minute :: "nat option"

text \<open>The one-shot markers of a cache entry (\<open>events\<close> in the source).\<close>

record markers =
  kickoffTriggered :: bool
  halftimeTriggered :: bool
  secondHalfTriggered :: bool
  extraTimeTriggered :: bool
  finishedTriggered :: bool

text \<open>A cache entry, as \<open>createMatchState\<close> builds it.\<close>

record match_state =
  cached_id :: nat
  cached_status :: match_status
  cached_utcDate :: int
  homeScore :: nat
  awayScore :: nat
  homeTeamId :: nat
  awayTeamId :: nat
  cached_minute :: nat
  events :: markers

datatype result_state = winning | losing | drawing

text \<open>
  What an emitted event carries besides the match and the team: the new score pair of a
  goal, the scoring team of a conceded goal, the threshold of a starts-soon event, and
  the new result state with the team's and the opponent's goals.
\<close>

datatype payload =
  NoPayload
  | NewScore nat nat
  | ConcededTo nat nat nat
  | Minutes nat
  | ResultChange result_state nat nat

record emitted =
  ev_name :: event_name
  ev_teamId :: nat
  ev_match :: match
  ev_data :: payload

text \<open>
  The manager together with the part of the runtime its timers live in.
  \<open>trackedTeams\<close> is the Map from team to its Set of devices, in insertion order (a device
  is a number here). A team key is the decimal string of the team's number in the source
  (\<open>String(teamId)\<close>, \<open>Number(id)\<close>); the model keeps the number. \<open>pollTimer\<close> is the handle
  the manager holds, \<open>None\<close> for null. \<open>timeouts\<close> are the runtime's pending timeouts, each
  a handle and its delay in milliseconds; \<open>nextHandle\<close> is the next fresh handle.
  \<open>inflight\<close> are the poll cycles suspended at \<open>await this.api.getTodayMatches(...)\<close>,
  each with the team list it captured and its high-priority flag.
\<close>

record manager =
  trackedTeams :: "(nat \<times> nat list) list"
  matchCache :: "nat \<rightharpoonup> match_state"
  pollingState :: polling_state
  pollTimer :: "nat option"
  matchStartsSoonTriggered :: "nat \<rightharpoonup> nat list"
  timeouts :: "(nat \<times> nat) list"
  nextHandle :: nat
  inflight :: "(nat list \<times> bool) list"

text \<open>The constructor: nothing tracked, empty caches, state IDLE, no timer.\<close>

definition new_manager :: manager where
  "new_manager =
    \<lparr>trackedTeams = [], matchCache = Map.empty, pollingState = POLL_IDLE, pollTimer = None,
     matchStartsSoonTriggered = Map.empty, timeouts = [], nextHandle = 1, inflight = []\<rparr>"

section \<open>Timers\<close>

text \<open>\<open>homey.setTimeout\<close>: a fresh handle, pending with its delay.\<close>

definition setTimeout :: "nat \<Rightarrow> manager \<Rightarrow> nat \<times> manager" where
  "setTimeout delay w =
    (nextHandle w,
     w\<lparr>timeouts := timeouts w @ [(nextHandle w, delay)], nextHandle := Suc (nextHandle w)\<rparr>)"

text \<open>\<open>homey.clearTimeout\<close>: the handle is no longer pending; a stale handle changes nothing.\<close>

definition clearTimeout :: "nat \<Rightarrow> manager \<Rightarrow> manager" where
  "clearTimeout h w = w\<lparr>timeouts := filter (\<lambda>t. fst t \<noteq> h) (timeouts w)\<rparr>"

definition getPollingInterval :: "manager \<Rightarrow> nat" where
  "getPollingInterval w =
    (if POLLING_INTERVALS (pollingState w) \<noteq> 0 then POLLING_INTERVALS (pollingState w)
     else POLLING_INTERVALS POLL_IDLE)"

definition scheduleNextPoll :: "manager \<Rightarrow> manager" where
  "scheduleNextPoll w =
    (let w1 = (case pollTimer w of Some h \<Rightarrow> clearTimeout h w | None \<Rightarrow> w);
         interval = getPollingInterval w1;
         (h, w2) = setTimeout interval w1
     in w2\<lparr>pollTimer := Some h\<rparr>)"

definition stopPolling :: "manager \<Rightarrow> manager" where
  "stopPolling w =
    (case pollTimer w of
       Some h \<Rightarrow> (clearTimeout h w)\<lparr>pollTimer := None\<rparr>
     | None \<Rightarrow> w)"

section \<open>The polling state\<close>

text \<open>
  \<open>determinePollingState\<close>, with the clock reading \<open>new Date()\<close> as the argument \<open>now\<close>
  (milliseconds). Minutes and hours are the source's quotients, taken exactly.
\<close>

definition determinePollingState :: "int \<Rightarrow> match list \<Rightarrow> polling_state" where
  "determinePollingState now matches =
    (let hasLiveMatch = list_ex (\<lambda>m. status m = IN_PLAY) matches in
     if hasLiveMatch then POLL_LIVE else
     let hasPausedMatch = list_ex (\<lambda>m. status m = PAUSED) matches in
     if hasPausedMatch then POLL_PAUSED else
     let hasProbablyLive = list_ex (\<lambda>m.
           if status m \<notin> set UPCOMING_STATUSES then False
           else (let matchDate = utcDate m;
                     minutesSinceKickoff = (of_int (now - matchDate) :: rat) / 1000 / 60
                 in minutesSinceKickoff > 0 \<and> minutesSinceKickoff < 120)) matches in
     if hasProbablyLive then POLL_LIVE else
     let hasRecentlyFinished = list_ex (\<lambda>m.
           if status m \<notin> set COMPLETED_STATUSES then False
           else (let matchDate = utcDate m;
                     estimatedEnd = matchDate + 2 * 60 * 60 * 1000;
                     minutesSinceEnd = (of_int (now - estimatedEnd) :: rat) / 1000 / 60
                 in minutesSinceEnd \<ge> 0 \<and> minutesSinceEnd < 15)) matches in
     if hasRecentlyFinished then POLL_POST_MATCH else
     let hasUpcoming = list_ex (\<lambda>m.
           if status m \<notin> set UPCOMING_STATUSES then False
           else (let matchDate = utcDate m;
                     hoursUntil = (of_int (matchDate - now) :: rat) / 1000 / 60 / 60
                 in hoursUntil \<le> 2 \<and> hoursUntil > 0)) matches in
     if hasUpcoming then POLL_PRE_MATCH else POLL_IDLE)"

section \<open>Emitting events\<close>

text \<open>
  \<open>emitForTeam\<close>: the event goes out only when the team is a key of \<open>trackedTeams\<close>.
  The functions below return the events they emit, in order.
\<close>

definition emitForTeam ::
  "(nat \<times> nat list) list \<Rightarrow> nat \<Rightarrow> event_name \<Rightarrow> match \<Rightarrow> payload \<Rightarrow> emitted list" where
  "emitForTeam tracked teamId eventName m d =
    (if teamId \<in> fst ` set tracked
     then [\<lparr>ev_name = eventName, ev_teamId = teamId, ev_match = m, ev_data = d\<rparr>]
     else [])"

definition emitForTeams ::
  "(nat \<times> nat list) list \<Rightarrow> nat list \<Rightarrow> event_name \<Rightarrow> match \<Rightarrow> payload \<Rightarrow> emitted list" where
  "emitForTeams tracked teamIds eventName m d =
    concat (map (\<lambda>teamId. emitForTeam tracked teamId eventName m d) teamIds)"

section \<open>The detector\<close>

definition no_markers :: markers where
  "no_markers =
    \<lparr>kickoffTriggered = False, halftimeTriggered = False, secondHalfTriggered = False,
     extraTimeTriggered = False, finishedTriggered = False\<rparr>"

definition currentScore :: "nat option \<Rightarrow> nat" where
  "currentScore s = (case s of None \<Rightarrow> 0 | Some n \<Rightarrow> n)"

definition createMatchState :: "match \<Rightarrow> markers option \<Rightarrow> match_state" where
  "createMatchState m existingEvents =
    \<lparr>cached_id = match_id m,
     cached_status = status m,
     cached_utcDate = utcDate m,
     homeScore = currentScore (fullTimeHome m),
     awayScore = currentScore (fullTimeAway m),
     homeTeamId = homeTeam m,
     awayTeamId = awayTeam m,
     cached_minute = (case minute m of None \<Rightarrow> 0 | Some n \<Rightarrow> n),
     events = (case existingEvents of None \<Rightarrow> no_markers | Some e \<Rightarrow> e)\<rparr>"

definition emitMatchResult :: "(nat \<times> nat list) list \<Rightarrow> match \<Rightarrow> emitted list" where
  "emitMatchResult tracked m =
    (let homeScore = currentScore (fullTimeHome m);
         awayScore = currentScore (fullTimeAway m);
         homeTeamId = homeTeam m;
         awayTeamId = awayTeam m
     in if homeScore > awayScore
        then emitForTeam tracked homeTeamId TEAM_WON m NoPayload
           @ emitForTeam tracked awayTeamId TEAM_LOST m NoPayload
        else if awayScore > homeScore
        then emitForTeam tracked awayTeamId TEAM_WON m NoPayload
           @ emitForTeam tracked homeTeamId TEAM_LOST m NoPayload
        else emitForTeams tracked [homeTeamId, awayTeamId] TEAM_DREW m NoPayload)"

text \<open>
  \<open>handleStatusChange\<close> emits and sets markers on \<open>cached.events\<close>; the model returns the
  events and the markers as the call leaves them.
\<close>

definition handleStatusChange ::
  "(nat \<times> nat list) list \<Rightarrow> match \<Rightarrow> match_state \<Rightarrow> emitted list \<times> markers" where
  "handleStatusChange tracked m cached =
    (let homeTeamId = homeTeam m;
         awayTeamId = awayTeam m;
         ev = events cached;
         finished =
           (if \<not> finishedTriggered ev
            then (emitForTeams tracked [homeTeamId, awayTeamId] MATCH_FINISHED m NoPayload
                    @ emitMatchResult tracked m,
                  ev\<lparr>finishedTriggered := True\<rparr>)
            else ([], ev))
     in case status m of
          IN_PLAY \<Rightarrow>
            if cached_status cached \<in> set UPCOMING_STATUSES
            then (if \<not> kickoffTriggered ev
                  then (emitForTeams tracked [homeTeamId, awayTeamId] MATCH_KICKOFF m NoPayload,
                        ev\<lparr>kickoffTriggered := True\<rparr>)
                  else ([], ev))
            else if cached_status cached = PAUSED
            then (if \<not> secondHalfTriggered ev
                  then (emitForTeams tracked [homeTeamId, awayTeamId] SECOND_HALF_STARTED m NoPayload,
                        ev\<lparr>secondHalfTriggered := True\<rparr>)
                  else ([], ev))
            else ([], ev)
        | PAUSED \<Rightarrow>
            if \<not> halftimeTriggered ev
            then (emitForTeams tracked [homeTeamId, awayTeamId] HALFTIME_STARTED m NoPayload,
                  ev\<lparr>halftimeTriggered := True\<rparr>)
            else ([], ev)
        | FINISHED \<Rightarrow> finished
        | AWARDED \<Rightarrow> finished
        | _ \<Rightarrow> ([], ev))"

definition getResultState :: "nat \<Rightarrow> nat \<Rightarrow> result_state" where
  "getResultState teamScore opponentScore =
    (if teamScore > opponentScore then winning
     else if teamScore < opponentScore then losing
     else drawing)"

definition emitResultStateChange ::
  "(nat \<times> nat list) list \<Rightarrow> match \<Rightarrow> nat \<Rightarrow> result_state \<Rightarrow> result_state \<Rightarrow> nat \<Rightarrow> nat \<Rightarrow> bool
    \<Rightarrow> emitted list" where
  "emitResultStateChange tracked m teamId oldState newState home_score away_score isHomeTeam =
    (if oldState = newState then []
     else (let teamGoals = (if isHomeTeam then home_score else away_score);
               opponentGoals = (if isHomeTeam then away_score else home_score)
           in emitForTeam tracked teamId MATCH_RESULT_CHANGED m
                (ResultChange newState teamGoals opponentGoals)))"

definition handleScoreChange ::
  "(nat \<times> nat list) list \<Rightarrow> match \<Rightarrow> match_state \<Rightarrow> nat \<Rightarrow> nat \<Rightarrow> emitted list" where
  "handleScoreChange tracked m cached newHome newAway =
    (let homeTeamId = homeTeam m;
         awayTeamId = awayTeam m;
         oldHomeState = getResultState (homeScore cached) (awayScore cached);
         oldAwayState = getResultState (awayScore cached) (homeScore cached);
         newHomeState = getResultState newHome newAway;
         newAwayState = getResultState newAway newHome
     in (if newHome > homeScore cached
         then emitForTeam tracked homeTeamId TEAM_SCORED m (NewScore newHome newAway)
            @ emitForTeam tracked awayTeamId TEAM_CONCEDED m (ConcededTo homeTeamId newHome newAway)
         else [])
      @ (if newAway > awayScore cached
         then emitForTeam tracked awayTeamId TEAM_SCORED m (NewScore newHome newAway)
            @ emitForTeam tracked homeTeamId TEAM_CONCEDED m (ConcededTo awayTeamId newHome newAway)
         else [])
      @ emitResultStateChange tracked m homeTeamId oldHomeState newHomeState newHome newAway True
      @ emitResultStateChange tracked m awayTeamId oldAwayState newAwayState newHome newAway False)"

text \<open>
  The body of the loop of \<open>processMatchUpdates\<close> for one match: the events it emits and
  the cache it leaves. In the source the new entry shares its \<open>events\<close> object with the
  code that sets the markers afterwards, so the entry stored is the one with the markers
  set.
\<close>

definition processMatchUpdate ::
  "(nat \<times> nat list) list \<Rightarrow> match \<Rightarrow> (nat \<rightharpoonup> match_state)
    \<Rightarrow> emitted list \<times> (nat \<rightharpoonup> match_state)" where
  "processMatchUpdate tracked m cache =
    (case cache (match_id m) of
       None \<Rightarrow>
         (let newState = createMatchState m None;
              teams = [homeTeam m, awayTeam m];
              ev0 = events newState;
              (e1, ev1) =
                (if status m = IN_PLAY
                 then (emitForTeams tracked teams MATCH_KICKOFF m NoPayload,
                       ev0\<lparr>kickoffTriggered := True\<rparr>)
                 else ([], ev0));
              (e2, ev2) =
                (if status m = PAUSED
                 then (emitForTeams tracked teams HALFTIME_STARTED m NoPayload,
                       ev1\<lparr>halftimeTriggered := True\<rparr>)
                 else ([], ev1));
              (e3, ev3) =
                (if status m = FINISHED \<or> status m = AWARDED
                 then (emitForTeams tracked teams MATCH_FINISHED m NoPayload
                         @ emitMatchResult tracked m,
                       ev2\<lparr>finishedTriggered := True\<rparr>)
                 else ([], ev2))
          in (e1 @ e2 @ e3, cache(match_id m \<mapsto> newState\<lparr>events := ev3\<rparr>)))
     | Some cached \<Rightarrow>
         (let (e1, ev1) =
                (if cached_status cached \<noteq> status m
                 then handleStatusChange tracked m cached
                 else ([], events cached));
              e2 =
                (if status m \<in> set LIVE_STATUSES
                 then (let currentHome = currentScore (fullTimeHome m);
                           currentAway = currentScore (fullTimeAway m)
                       in if currentHome \<noteq> homeScore cached \<or> currentAway \<noteq> awayScore cached
                          then handleScoreChange tracked m cached currentHome currentAway
                          else [])
                 else [])
          in (e1 @ e2, cache(match_id m \<mapsto> createMatchState m (Some ev1)))))"

fun processMatchUpdates ::
  "(nat \<times> nat list) list \<Rightarrow> match list \<Rightarrow> (nat \<rightharpoonup> match_state)
    \<Rightarrow> emitted list \<times> (nat \<rightharpoonup> match_state)" where
  "processMatchUpdates tracked [] cache = ([], cache)"
| "processMatchUpdates tracked (m # matches) cache =
    (let (e1, cache1) = processMatchUpdate tracked m cache;
         (e2, cache2) = processMatchUpdates tracked matches cache1
     in (e1 @ e2, cache2))"

section \<open>Match starts soon\<close>

text \<open>
  The inner loop of \<open>checkMatchStartsSoon\<close> over the thresholds, for one match whose
  minutes until kickoff are \<open>minutesUntil\<close>.
\<close>

fun checkThresholds ::
  "(nat \<times> nat list) list \<Rightarrow> match \<Rightarrow> rat \<Rightarrow> nat list \<Rightarrow> (nat \<rightharpoonup> nat list)
    \<Rightarrow> emitted list \<times> (nat \<rightharpoonup> nat list)" where
  "checkThresholds tracked m minutesUntil [] triggered = ([], triggered)"
| "checkThresholds tracked m minutesUntil (threshold # thresholds) triggered =
    (let (e1, triggered1) =
           (if minutesUntil \<le> of_nat threshold \<and> minutesUntil > 0
            then (let triggeredSet = (case triggered (match_id m) of None \<Rightarrow> [] | Some s \<Rightarrow> s)
                  in if threshold \<notin> set triggeredSet
                     then (emitForTeams tracked [homeTeam m, awayTeam m] MATCH_STARTS_SOON m
                             (Minutes threshold),
                           triggered(match_id m \<mapsto> triggeredSet @ [threshold]))
                     else ([], triggered))
            else ([], triggered));
         (e2, triggered2) = checkThresholds tracked m minutesUntil thresholds triggered1
     in (e1 @ e2, triggered2))"

fun checkMatchStartsSoon ::
  "(nat \<times> nat list) list \<Rightarrow> int \<Rightarrow> match list \<Rightarrow> (nat \<rightharpoonup> nat list)
    \<Rightarrow> emitted list \<times> (nat \<rightharpoonup> nat list)" where
  "checkMatchStartsSoon tracked now [] triggered = ([], triggered)"
| "checkMatchStartsSoon tracked now (m # matches) triggered =
    (let (e1, triggered1) =
           (if status m \<notin> set UPCOMING_STATUSES then ([], triggered)
            else (let matchDate = utcDate m;
                      minutesUntil = (of_int (matchDate - now) :: rat) / 1000 / 60
                  in checkThresholds tracked m minutesUntil MATCH_SOON_THRESHOLDS triggered));
         (e2, triggered2) = checkMatchStartsSoon tracked now matches triggered1
     in (e1 @ e2, triggered2))"

section \<open>Eviction\<close>

text \<open>
  \<open>cleanupOldMatches\<close>: a threshold record goes when its match is not among the current
  matches; a cache entry goes when its status is completed and kickoff plus two hours
  lies more than two hours before \<open>now\<close>.
\<close>

definition cleanupOldMatches :: "int \<Rightarrow> match list \<Rightarrow> manager \<Rightarrow> manager" where
  "cleanupOldMatches now currentMatches w =
    (let currentMatchIds = set (map match_id currentMatches);
         twoHoursAgo = now - 2 * 60 * 60 * 1000
     in w\<lparr>matchStartsSoonTriggered :=
             (\<lambda>matchId. if matchId \<in> currentMatchIds then matchStartsSoonTriggered w matchId
                        else None),
           matchCache :=
             (\<lambda>matchId. case matchCache w matchId of
                          None \<Rightarrow> None
                        | Some cached \<Rightarrow>
                            if cached_status cached \<in> set COMPLETED_STATUSES
                               \<and> cached_utcDate cached + 2 * 60 * 60 * 1000 < twoHoursAgo
                            then None else Some cached)\<rparr>)"

section \<open>The poll cycle\<close>

text \<open>
  \<open>poll\<close> is an async function with one suspension point, the fetch. \<open>poll_begin\<close> is
  the part before it: with no tracked team it schedules the next cycle and issues no
  request; otherwise it issues \<open>getTodayMatches(pollingState === LIVE)\<close> and suspends,
  holding the team list it read.
\<close>

definition getTrackedTeamIds :: "manager \<Rightarrow> nat list" where
  "getTrackedTeamIds w = map fst (trackedTeams w)"

definition poll_begin :: "manager \<Rightarrow> manager" where
  "poll_begin w =
    (let trackedTeamIds = getTrackedTeamIds w
     in if length trackedTeamIds = 0 then scheduleNextPoll w
        else w\<lparr>inflight := inflight w @ [(trackedTeamIds, pollingState w = POLL_LIVE)]\<rparr>)"

text \<open>
  \<open>poll_resume\<close> is the part after the fetch, for the cycle that captured
  \<open>trackedTeamIds\<close>: the fetch either threw (\<open>Inl\<close> the message) or returned today's
  matches. \<open>now\<close> is the clock of this synchronous stretch of code. It returns the events
  emitted and the manager it leaves.
\<close>

definition poll_resume ::
  "nat list \<Rightarrow> string + match list \<Rightarrow> int \<Rightarrow> manager \<Rightarrow> emitted list \<times> manager" where
  "poll_resume trackedTeamIds fetched now w =
    (case fetched of
       Inl message \<Rightarrow>
         (let (h, w1) = setTimeout 60000 w in ([], w1\<lparr>pollTimer := Some h\<rparr>))
     | Inr allMatches \<Rightarrow>
         (let relevantMatches =
                filter (\<lambda>m. homeTeam m \<in> set trackedTeamIds \<or> awayTeam m \<in> set trackedTeamIds)
                  allMatches;
              (e1, cache1) = processMatchUpdates (trackedTeams w) relevantMatches (matchCache w);
              w1 = w\<lparr>matchCache := cache1\<rparr>;
              (e2, triggered1) =
                checkMatchStartsSoon (trackedTeams w1) now relevantMatches
                  (matchStartsSoonTriggered w1);
              w2 = w1\<lparr>matchStartsSoonTriggered := triggered1\<rparr>;
              w3 = cleanupOldMatches now relevantMatches w2;
              newState = determinePollingState now relevantMatches;
              w4 = (if newState \<noteq> pollingState w3 then w3\<lparr>pollingState := newState\<rparr> else w3)
          in (e1 @ e2, scheduleNextPoll w4)))"

text \<open>
  A whole cycle with nothing interleaved at the suspension point: \<open>fetch\<close> answers the
  request, given its high-priority flag.
\<close>

definition poll :: "(bool \<Rightarrow> string + match list) \<Rightarrow> int \<Rightarrow> manager \<Rightarrow> emitted list \<times> manager" where
  "poll fetch now w =
    (let trackedTeamIds = getTrackedTeamIds w
     in if length trackedTeamIds = 0 then ([], scheduleNextPoll w)
        else poll_resume trackedTeamIds (fetch (pollingState w = POLL_LIVE)) now w)"

section \<open>Registering and unregistering devices\<close>

definition startPolling :: "manager \<Rightarrow> manager" where
  "startPolling w = (if pollTimer w \<noteq> None then w else poll_begin w)"

definition registerDevice :: "nat \<Rightarrow> nat \<Rightarrow> manager \<Rightarrow> manager" where
  "registerDevice teamId device w =
    (let tracked1 =
           (if teamId \<notin> fst ` set (trackedTeams w) then trackedTeams w @ [(teamId, [])]
            else trackedTeams w);
         tracked2 =
           map (\<lambda>(t, devices).
                  if t = teamId
                  then (t, if device \<in> set devices then devices else devices @ [device])
                  else (t, devices)) tracked1;
         w1 = w\<lparr>trackedTeams := tracked2\<rparr>
     in if length (trackedTeams w1) = 1 \<and> pollTimer w1 = None then startPolling w1 else w1)"

definition unregisterDevice :: "nat \<Rightarrow> nat \<Rightarrow> manager \<Rightarrow> manager" where
  "unregisterDevice teamId device w =
    (let tracked1 =
           (case map_of (trackedTeams w) teamId of
              None \<Rightarrow> trackedTeams w
            | Some devices \<Rightarrow>
                (let devices1 = removeAll device devices
                 in if length devices1 = 0
                    then filter (\<lambda>entry. fst entry \<noteq> teamId) (trackedTeams w)
                    else map (\<lambda>(t, ds). if t = teamId then (t, devices1) else (t, ds))
                           (trackedTeams w)));
         w1 = w\<lparr>trackedTeams := tracked1\<rparr>
     in if length (trackedTeams w1) = 0 then stopPolling w1 else w1)"

section \<open>The manager driven by its environment\<close>

text \<open>
  What can happen to a manager: a device registers or unregisters, a pending timeout
  fires (the runtime drops it and calls \<open>poll\<close>), or the fetch of the oldest suspended
  cycle settles, with the clock at that moment. \<open>exec\<close> gives the events emitted and the
  manager after the step; \<open>run\<close> does a list of steps.
\<close>

datatype step =
  Register nat nat
  | Unregister nat nat
  | TimerFires nat
  | FetchSettles "string + match list" int

fun exec :: "step \<Rightarrow> manager \<Rightarrow> emitted list \<times> manager" where
  "exec (Register teamId device) w = ([], registerDevice teamId device w)"
| "exec (Unregister teamId device) w = ([], unregisterDevice teamId device w)"
| "exec (TimerFires h) w =
    (if h \<in> fst ` set (timeouts w)
     then ([], poll_begin (w\<lparr>timeouts := filter (\<lambda>t. fst t \<noteq> h) (timeouts w)\<rparr>))
     else ([], w))"
| "exec (FetchSettles fetched now) w =
    (case inflight w of
       [] \<Rightarrow> ([], w)
     | (trackedTeamIds, highPriority) # rest \<Rightarrow>
         poll_resume trackedTeamIds fetched now (w\<lparr>inflight := rest\<rparr>))"

fun run :: "step list \<Rightarrow> manager \<Rightarrow> emitted list \<times> manager" where
  "run [] w = ([], w)"
| "run (s # steps) w =
    (let (e1, w1) = exec s w;
         (e2, w2) = run steps w1
     in (e1 @ e2, w2))"

section \<open>Snapshot sequences of one match\<close>

datatype side = Home | Away

fun otherSide :: "side \<Rightarrow> side" where
  "otherSide Home = Away"
| "otherSide Away = Home"

fun sideTeam :: "side \<Rightarrow> match \<Rightarrow> nat" where
  "sideTeam Home m = homeTeam m"
| "sideTeam Away m = awayTeam m"

fun freshScore :: "side \<Rightarrow> match \<Rightarrow> nat" where
  "freshScore Home m = currentScore (fullTimeHome m)"
| "freshScore Away m = currentScore (fullTimeAway m)"

fun cachedScore :: "side \<Rightarrow> match_state \<Rightarrow> nat" where
  "cachedScore Home c = homeScore c"
| "cachedScore Away c = awayScore c"

text \<open>
  Successive whole poll cycles with nothing interleaved, the feed of each holding the
  snapshot of one match, each with the clock of its cycle: all events emitted, in order.
\<close>

fun poll_cycles :: "manager \<Rightarrow> (int \<times> match) list \<Rightarrow> emitted list" where
  "poll_cycles w [] = []"
| "poll_cycles w ((now, m) # cycles) =
    (let (e, w1) = poll (\<lambda>highPriority. Inr [m]) now w
     in e @ poll_cycles w1 cycles)"

text \<open>
  The number of snapshots of a sequence whose status is live and in which a side's score
  is strictly above its score in the snapshot before (\<open>prev\<close> for the first).
\<close>

fun strict_increases :: "side \<Rightarrow> nat \<Rightarrow> match list \<Rightarrow> nat" where
  "strict_increases s prev [] = 0"
| "strict_increases s prev (m # snapshots) =
    (if status m \<in> set LIVE_STATUSES \<and> prev < freshScore s m then 1 else 0)
    + strict_increases s (freshScore s m) snapshots"

text \<open>The events of a list with a given name and addressed to a given team.\<close>

definition events_to :: "event_name \<Rightarrow> nat \<Rightarrow> emitted list \<Rightarrow> emitted list" where
  "events_to eventName teamId es =
    filter (\<lambda>e. ev_name e = eventName \<and> ev_teamId e = teamId) es"

text \<open>
  The thresholds carried by the starts-soon events of a list that are addressed to a
  given team, in the order emitted.
\<close>

definition soon_thresholds :: "nat \<Rightarrow> emitted list \<Rightarrow> nat list" where
  "soon_thresholds teamId es =
    concat (map (\<lambda>e. case ev_data e of Minutes t \<Rightarrow> [t] | _ \<Rightarrow> [])
      (events_to MATCH_STARTS_SOON teamId es))"

text \<open>
  The starts-soon part of successive cycles on the snapshots of a match, each with the
  clock of its cycle: the threshold check, then the eviction of \<open>cleanupOldMatches\<close> with
  that snapshot as the current match list. It returns, per cycle, the thresholds fired
  to the given team.
\<close>

fun soon_seq ::
  "(nat \<times> nat list) list \<Rightarrow> nat \<Rightarrow> (nat \<rightharpoonup> nat list) \<Rightarrow> (int \<times> match) list \<Rightarrow> nat list list" where
  "soon_seq tracked teamId triggered [] = []"
| "soon_seq tracked teamId triggered ((now, m) # cycles) =
    (let (e, triggered1) = checkMatchStartsSoon tracked now [m] triggered;
         triggered2 = (\<lambda>matchId. if matchId \<in> set (map match_id [m]) then triggered1 matchId
                                   else None)
     in soon_thresholds teamId e # soon_seq tracked teamId triggered2 cycles)"

section \<open>The rate-limited client (lib/FootballAPI.js)\<close>

text \<open>
  The client's state: the key (\<open>None\<close> when null or undefined; the empty string is falsy
  too) and the request timestamps, in milliseconds.
\<close>

record football_api =
  apiKey :: "string option"
  requestTimestamps :: "int list"

definition cleanExpiredTimestamps :: "int \<Rightarrow> football_api \<Rightarrow> football_api" where
  "cleanExpiredTimestamps now api =
    (let oneMinuteAgo = now - 60000
     in api\<lparr>requestTimestamps := filter (\<lambda>ts. ts > oneMinuteAgo) (requestTimestamps api)\<rparr>)"

text \<open>\<open>canMakeRequest\<close> cleans the window first; the model returns the answer and the state.\<close>

definition canMakeRequest :: "bool \<Rightarrow> int \<Rightarrow> football_api \<Rightarrow> bool \<times> football_api" where
  "canMakeRequest highPriority now api =
    (let api1 = cleanExpiredTimestamps now api;
         limit = (if highPriority then RATE_LIMIT else RATE_LIMIT - RATE_LIMIT_BUFFER)
     in (length (requestTimestamps api1) < limit, api1))"

text \<open>
  The waiting loop of \<open>request\<close>, for a caller nobody interleaves with. \<open>now\<close> is the clock
  when the loop condition is evaluated; a sleep of \<open>waitTime\<close> ends \<open>waitTime\<close> later, plus
  the lateness of the timer, taken from \<open>late\<close> (one entry per sleep, none left meaning
  on time). The result is the clock when the loop is left and the state then. With an
  empty window and the condition still false, \<open>requestTimestamps[0]\<close> is undefined, the
  wait is NaN, nothing sleeps and the source loops without end: that is \<open>None\<close>.
\<close>

function waitForRateLimit ::
  "bool \<Rightarrow> nat list \<Rightarrow> int \<Rightarrow> football_api \<Rightarrow> (int \<times> football_api) option" where
  "waitForRateLimit highPriority late now api =
    (if fst (canMakeRequest highPriority now api)
     then Some (now, snd (canMakeRequest highPriority now api))
     else (let api1 = snd (canMakeRequest highPriority now api)
           in case requestTimestamps api1 of
                [] \<Rightarrow> None
              | oldestTimestamp # rest \<Rightarrow>
                  (let waitTime = oldestTimestamp + 60000 - now + 100;
                       now1 = (if waitTime > 0
                               then now + waitTime + (case late of [] \<Rightarrow> 0 | l # ls \<Rightarrow> int l)
                               else now);
                       api2 = cleanExpiredTimestamps now1 api1
                   in waitForRateLimit highPriority (tl late) now1 api2)))"
  by pat_completeness auto
termination
proof (relation "measure (\<lambda>(highPriority, late, now, api). length (requestTimestamps api))")
  show "wf (measure (\<lambda>(highPriority, late, now, api). length (requestTimestamps api)))"
    by simp
next
  fix highPriority :: bool and late :: "nat list" and now :: int and api :: football_api
    and x :: football_api and oldest :: int and rest :: "int list" and waitTime now1 :: int
    and api2 :: football_api
  assume x: "x = snd (canMakeRequest highPriority now api)"
    and ts: "requestTimestamps x = oldest # rest"
    and wt: "waitTime = oldest + 60000 - now + 100"
    and n1: "now1 = (if 0 < waitTime
                     then now + waitTime + (case late of [] \<Rightarrow> 0 | l # ls \<Rightarrow> int l)
                     else now)"
    and a2: "api2 = cleanExpiredTimestamps now1 x"
  have late0: "(0::int) \<le> (case late of [] \<Rightarrow> 0 | l # ls \<Rightarrow> int l)"
    by (cases late) simp_all
  have gone: "\<not> oldest > now1 - 60000"
    using wt n1 late0 by (auto split: if_splits)
  have "requestTimestamps api2 = filter (\<lambda>ts. ts > now1 - 60000) (oldest # rest)"
    using a2 ts by (simp add: cleanExpiredTimestamps_def)
  then have "length (requestTimestamps api2) \<le> length rest"
    using gone by simp
  moreover have "length (oldest # rest) \<le> length (requestTimestamps api)"
    using x ts [symmetric] by (simp add: canMakeRequest_def cleanExpiredTimestamps_def)
  ultimately show "((highPriority, tl late, now1, api2), (highPriority, late, now, api))
      \<in> measure (\<lambda>(highPriority, late, now, api). length (requestTimestamps api))"
    by simp
qed

text \<open>The equation of the loop is unfolded only where a proof asks for it.\<close>

declare waitForRateLimit.simps [simp del]

text \<open>
  What \<open>fetch\<close> does with the request: it rejects (a transport failure), or a response
  arrives with its status code, its body text and, when the body is JSON, its value.
\<close>

datatype fetch_outcome =
  NetworkFailure string
  | Response nat string "string option"

datatype request_error =
  NotConfigured | RateLimited | AccessDenied | ApiError nat string | Failure string

text \<open>
  \<open>request\<close>: without a key it throws at once; otherwise it waits for capacity, records
  the timestamp, and only then sends. The result is the error thrown or the JSON value,
  and the client's state.
\<close>

definition request ::
  "bool \<Rightarrow> nat list \<Rightarrow> fetch_outcome \<Rightarrow> int \<Rightarrow> football_api
    \<Rightarrow> ((request_error + string) \<times> football_api) option" where
  "request highPriority late outcome now api =
    (if apiKey api = None \<or> apiKey api = Some [] then Some (Inl NotConfigured, api)
     else case waitForRateLimit highPriority late now api of
            None \<Rightarrow> None
          | Some (sent, api1) \<Rightarrow>
              (let api2 = api1\<lparr>requestTimestamps := requestTimestamps api1 @ [sent]\<rparr>;
                   answer =
                     (case outcome of
                        NetworkFailure message \<Rightarrow> Inl (Failure message)
                      | Response code body json \<Rightarrow>
                          if \<not> (200 \<le> code \<and> code \<le> 299)
                          then (if code = 429 then Inl RateLimited
                                else if code = 403 then Inl AccessDenied
                                else Inl (ApiError code body))
                          else (case json of
                                  None \<Rightarrow> Inl (Failure ''Unexpected token'')
                                | Some v \<Rightarrow> Inr v))
               in Some (answer, api2)))"

text \<open>
  Callers interleave only at their suspension points, so whatever the callers, the
  client's state changes in steps of two kinds. \<open>Attempt highPriority t t'\<close>: a caller
  evaluates the loop condition with the clock at \<open>t\<close>; if it holds, the caller leaves the
  loop and pushes the clock \<open>t'\<close>, and the request goes out. \<open>Wake t\<close>: a caller runs the
  \<open>cleanExpiredTimestamps\<close> that ends a loop iteration, with the clock at \<open>t\<close>. Beside the
  client's state, \<open>api_step\<close> keeps the log of the requests sent: time and priority.
\<close>

datatype api_event = Attempt bool int int | Wake int

fun api_step ::
  "api_event \<Rightarrow> football_api \<times> (int \<times> bool) list \<Rightarrow> football_api \<times> (int \<times> bool) list" where
  "api_step (Attempt highPriority t t') (api, sent) =
    (if fst (canMakeRequest highPriority t api)
     then ((snd (canMakeRequest highPriority t api))
             \<lparr>requestTimestamps :=
                requestTimestamps (snd (canMakeRequest highPriority t api)) @ [t']\<rparr>,
           sent @ [(t', highPriority)])
     else (snd (canMakeRequest highPriority t api), sent))"
| "api_step (Wake t) (api, sent) = (cleanExpiredTimestamps t api, sent)"

fun api_run ::
  "api_event list \<Rightarrow> football_api \<times> (int \<times> bool) list \<Rightarrow> football_api \<times> (int \<times> bool) list" where
  "api_run [] s = s"
| "api_run (e # es) s = api_run es (api_step e s)"

fun clock_readings :: "api_event \<Rightarrow> int list" where
  "clock_readings (Attempt highPriority t t') = [t, t']"
| "clock_readings (Wake t) = [t]"

text \<open>
  The requests of a log that fall in the trailing 60-second window ending at \<open>T\<close>, all of
  them and those sent without high priority.
\<close>

definition in_window :: "int \<Rightarrow> (int \<times> bool) list \<Rightarrow> (int \<times> bool) list" where
  "in_window T sent = filter (\<lambda>r. T - 60000 < fst r \<and> fst r \<le> T) sent"

definition normal_in_window :: "int \<Rightarrow> (int \<times> bool) list \<Rightarrow> (int \<times> bool) list" where
  "normal_in_window T sent = filter (\<lambda>r. \<not> snd r) (in_window T sent)"

section \<open>Notions used to state the properties\<close>

text \<open>The one-shot marker that guards an event, for the events that have one.\<close>

fun latch :: "event_name \<Rightarrow> markers \<Rightarrow> bool" where
  "latch MATCH_KICKOFF e = kickoffTriggered e"
| "latch HALFTIME_STARTED e = halftimeTriggered e"
| "latch SECOND_HALF_STARTED e = secondHalfTriggered e"
| "latch MATCH_FINISHED e = finishedTriggered e"
| "latch TEAM_WON e = finishedTriggered e"
| "latch TEAM_LOST e = finishedTriggered e"
| "latch TEAM_DREW e = finishedTriggered e"
| "latch _ e = False"

text \<open>The thresholds already fired for a match: its record, empty when it has none.\<close>

definition firedFor :: "(nat \<rightharpoonup> nat list) \<Rightarrow> nat \<Rightarrow> nat list" where
  "firedFor triggered matchId = (case triggered matchId of None \<Rightarrow> [] | Some s \<Rightarrow> s)"

text \<open>
  The thresholds of a list that fire, in order, when the minutes until kickoff are \<open>mu\<close>
  and \<open>fired\<close> have fired before: those with \<open>0 < mu \<le> threshold\<close> not fired yet.
\<close>

fun firing :: "rat \<Rightarrow> nat list \<Rightarrow> nat list \<Rightarrow> nat list" where
  "firing mu fired [] = []"
| "firing mu fired (th # ths) =
    (if mu \<le> of_nat th \<and> mu > 0 \<and> th \<notin> set fired then th # firing mu (fired @ [th]) ths
     else firing mu fired ths)"

text \<open>The starts-soon events of a match for a list of thresholds.\<close>

definition soon_events :: "(nat \<times> nat list) list \<Rightarrow> match \<Rightarrow> nat list \<Rightarrow> emitted list" where
  "soon_events tracked m ths =
    concat (map (\<lambda>th. emitForTeams tracked [homeTeam m, awayTeam m] MATCH_STARTS_SOON m
                        (Minutes th)) ths)"

text \<open>
  Of the threshold lists fired cycle by cycle: every threshold of a later cycle is
  smaller than every threshold of an earlier one.
\<close>

fun later_smaller :: "nat list list \<Rightarrow> bool" where
  "later_smaller [] = True"
| "later_smaller (F # Fs) = ((\<forall>x \<in> set F. \<forall>y \<in> set (concat Fs). y < x) \<and> later_smaller Fs)"

text \<open>
  A snapshot whose cache entry \<open>cleanupOldMatches\<close> deletes at the end of the cycle that
  stored it: its status is completed and its kickoff plus two hours lies more than two
  hours before the clock.
\<close>

definition entry_evicted :: "int \<Rightarrow> match \<Rightarrow> bool" where
  "entry_evicted now m \<longleftrightarrow>
     status m \<in> set COMPLETED_STATUSES
     \<and> utcDate m + 2 * 60 * 60 * 1000 < now - 2 * 60 * 60 * 1000"

text \<open>The minutes until kickoff as \<open>checkMatchStartsSoon\<close> computes them.\<close>

definition minutesUntil :: "int \<Rightarrow> match \<Rightarrow> rat" where
  "minutesUntil now m = (of_int (utcDate m - now) :: rat) / 1000 / 60"

section \<open>Example inputs\<close>

text \<open>A match with the given id, status, kickoff, home and away team, and score.\<close>

definition example_match ::
  "nat \<Rightarrow> match_status \<Rightarrow> int \<Rightarrow> nat \<Rightarrow> nat \<Rightarrow> nat \<Rightarrow> nat \<Rightarrow> match" where
  "example_match i s kickoff home away h a =
    \<lparr>match_id = i, status = s, utcDate = kickoff, fullTimeHome = Some h, fullTimeAway = Some a,
     homeTeam = home, awayTeam = away, minute = None\<rparr>"

text \<open>
  One match at half-time and another still TIMED whose kickoff was thirty minutes before
  the clock reading 3600000.
\<close>

definition paused_and_delayed :: "match list" where
  "paused_and_delayed =
    [example_match 1 PAUSED 0 10 11 1 0, example_match 2 TIMED 1800000 12 13 0 0]"

text \<open>
  Team 10 is tracked; today's feed holds a match of team 10 that finished 2-1 and kicked
  off at 0. Two cycles follow one another, five hours and five and a quarter hours after
  kickoff.
\<close>

definition finished_cycles :: "step list" where
  "finished_cycles =
    [Register 10 1,
     FetchSettles (Inr [example_match 7 FINISHED 0 10 11 2 1]) 18000000,
     TimerFires 1,
     FetchSettles (Inr [example_match 7 FINISHED 0 10 11 2 1]) 18900000]"

text \<open>A manager that tracks team 10 and whose recorded state is LIVE.\<close>

definition live_manager :: manager where
  "live_manager = new_manager\<lparr>trackedTeams := [(10, [1])], pollingState := POLL_LIVE\<rparr>"

text \<open>
  Team 10 is tracked and its match is in play. The only device unregisters while a cycle
  waits for its fetch; the cycle completes, and the timer it armed fires.
\<close>

definition stale_live_cycles :: "step list" where
  "stale_live_cycles =
    [Register 10 1,
     FetchSettles (Inr [example_match 7 IN_PLAY 0 10 11 0 0]) 600000,
     TimerFires 1,
     Unregister 10 1,
     FetchSettles (Inr [example_match 7 IN_PLAY 0 10 11 0 0]) 630000,
     TimerFires 2]"

text \<open>
  The only device registers and unregisters while the first cycle waits for its fetch;
  the fetch settles, and the timer that cycle armed fires.
\<close>

definition stop_race :: "step list" where
  "stop_race = [Register 10 1, Unregister 10 1, FetchSettles (Inr []) 0, TimerFires 1]"

text \<open>
  A match of team 10 that kicked off at 0, first seen in play at 0-0; the cycles after
  that see it at 1-0 twice, at 2-0 at half-time, and finished at 3-0, the last one 110
  minutes after kickoff.
\<close>

definition goal_cycles :: "(int \<times> match) list" where
  "goal_cycles =
    [(1200000, example_match 7 IN_PLAY 0 10 11 1 0),
     (1800000, example_match 7 IN_PLAY 0 10 11 1 0),
     (3000000, example_match 7 PAUSED 0 10 11 2 0),
     (6600000, example_match 7 FINISHED 0 10 11 3 0)]"

text \<open>
  Teams 10 and 11 are both tracked; their match 7 kicks off at 7200000. A cycle sees it
  100 minutes before kickoff. Team 10's device unregisters, a cycle runs with the match
  still relevant through team 11, the device registers again, and a cycle sees the match
  80 minutes before kickoff.
\<close>

definition resubscribe_opponent_tracked :: "step list" where
  "resubscribe_opponent_tracked =
    [Register 10 1, Register 11 2,
     FetchSettles (Inr [example_match 7 TIMED 7200000 10 11 0 0]) 1200000,
     Unregister 10 1, TimerFires 1,
     FetchSettles (Inr [example_match 7 TIMED 7200000 10 11 0 0]) 1500000,
     Register 10 1, TimerFires 2,
     FetchSettles (Inr [example_match 7 TIMED 7200000 10 11 0 0]) 2400000]"

text \<open>
  A manager that tracks team 10, holds timer 1, has cached match 7 as TIMED with the
  kickoff marker set, and has fired the 120-minute threshold for it.
\<close>

definition watching_manager :: manager where
  "watching_manager =
    live_manager
      \<lparr>matchCache :=
         [7 \<mapsto> createMatchState (example_match 7 TIMED 7200000 10 11 0 0)
                 (Some (no_markers\<lparr>kickoffTriggered := True\<rparr>))],
       matchStartsSoonTriggered := [7 \<mapsto> [120]],
       pollTimer := Some 1, timeouts := [(1, 30000)], nextHandle := 2\<rparr>"

text \<open>
  Teams 10 and 20 are tracked; match 7 of team 10 kicks off at 7200000. A cycle sees it
  100 minutes before kickoff. Team 10's device unregisters, a cycle runs without the
  match among the relevant ones, the device registers again, and a cycle sees the match
  80 minutes before kickoff.
\<close>

definition resubscribe_cycles :: "step list" where
  "resubscribe_cycles =
    [Register 10 1, Register 20 2,
     FetchSettles (Inr [example_match 7 TIMED 7200000 10 11 0 0]) 1200000,
     Unregister 10 1, TimerFires 1,
     FetchSettles (Inr [example_match 7 TIMED 7200000 10 11 0 0]) 1500000,
     Register 10 1, TimerFires 2,
     FetchSettles (Inr [example_match 7 TIMED 7200000 10 11 0 0]) 2400000]"

text \<open>
  Match 7 kicks off at 7200000 and is seen 130, 100, 50, 50 and 10 minutes before
  kickoff, and once after it.
\<close>

definition countdown_cycles :: "(int \<times> match) list" where
  "countdown_cycles =
    [(-600000, example_match 7 TIMED 7200000 10 11 0 0),
     (1200000, example_match 7 TIMED 7200000 10 11 0 0),
     (4200000, example_match 7 TIMED 7200000 10 11 0 0),
     (4200000, example_match 7 TIMED 7200000 10 11 0 0),
     (6600000, example_match 7 TIMED 7200000 10 11 0 0),
     (7260000, example_match 7 TIMED 7200000 10 11 0 0)]"

text \<open>A client with a key and no request made yet.\<close>

definition fresh_api :: football_api where
  "fresh_api = \<lparr>apiKey = Some ''key'', requestTimestamps = []\<rparr>"

text \<open>
  Nine normal attempts and three high-priority ones in the same millisecond, then a
  normal caller that wakes 60100 ms later and tries again.
\<close>

definition burst :: "api_event list" where
  "burst =
    [Attempt False 0 0, Attempt False 0 0, Attempt False 0 0, Attempt False 0 0,
     Attempt False 0 0, Attempt False 0 0, Attempt False 0 0, Attempt False 0 0,
     Attempt False 0 0, Attempt True 0 0, Attempt True 0 0, Attempt True 0 0,
     Wake 60100, Attempt False 60100 60100]"

text \<open>A client whose window holds eight requests, one per second from 0 on.\<close>

definition full_api :: football_api where
  "full_api =
    \<lparr>apiKey = Some ''key'',
     requestTimestamps = [0, 1000, 2000, 3000, 4000, 5000, 6000, 7000]\<rparr>"

section \<open>Timers and scheduling\<close>

lemma getPollingInterval_eq: "getPollingInterval w = POLLING_INTERVALS (pollingState w)"
  by (cases "pollingState w") (simp_all add: getPollingInterval_def)

lemma scheduleNextPoll_eq:
  "scheduleNextPoll w =
    w\<lparr>timeouts := filter (\<lambda>t. Some (fst t) \<noteq> pollTimer w) (timeouts w)
                    @ [(nextHandle w, POLLING_INTERVALS (pollingState w))],
      nextHandle := Suc (nextHandle w),
      pollTimer := Some (nextHandle w)\<rparr>"
  by (cases "pollTimer w")
     (simp_all add: scheduleNextPoll_def setTimeout_def clearTimeout_def getPollingInterval_eq)

lemma stopPolling_eq:
  "stopPolling w =
    w\<lparr>timeouts := filter (\<lambda>t. Some (fst t) \<noteq> pollTimer w) (timeouts w), pollTimer := None\<rparr>"
  by (cases "pollTimer w") (simp_all add: stopPolling_def clearTimeout_def)

lemma poll_resume_error:
  "poll_resume trackedTeamIds (Inl message) now w =
    ([], w\<lparr>timeouts := timeouts w @ [(nextHandle w, 60000)], nextHandle := Suc (nextHandle w),
           pollTimer := Some (nextHandle w)\<rparr>)"
  by (simp add: poll_resume_def setTimeout_def)

lemmas eval_defs = example_match_def new_manager_def registerDevice_def unregisterDevice_def
  startPolling_def poll_begin_def getTrackedTeamIds_def poll_resume_def stopPolling_def
  scheduleNextPoll_def setTimeout_def clearTimeout_def getPollingInterval_def
  processMatchUpdate_def createMatchState_def emitForTeams_def emitForTeam_def emitMatchResult_def
  currentScore_def no_markers_def handleStatusChange_def handleScoreChange_def
  emitResultStateChange_def getResultState_def
  UPCOMING_STATUSES_def COMPLETED_STATUSES_def LIVE_STATUSES_def MATCH_SOON_THRESHOLDS_def
  cleanupOldMatches_def determinePollingState_def

section \<open>The polling state\<close>

lemma determinePollingState_in_play:
  "list_ex (\<lambda>m. status m = IN_PLAY) matches \<Longrightarrow> determinePollingState now matches = POLL_LIVE"
  by (simp add: determinePollingState_def)

lemma determinePollingState_paused:
  "list_ex (\<lambda>m. status m = PAUSED) matches \<Longrightarrow> \<not> list_ex (\<lambda>m. status m = IN_PLAY) matches
    \<Longrightarrow> determinePollingState now matches = POLL_PAUSED"
  by (simp add: determinePollingState_def)

text \<open>
  Claim C1. The claim: the state returned is that of the first non-empty bucket in the
  order LIVE, PAUSED, POST_MATCH, PRE_MATCH, IDLE, where a match in an upcoming status
  whose kickoff lies 0 to 120 minutes in the past counts as LIVE; so a list with a PAUSED
  match and such a delayed match gives LIVE. The code tests for a PAUSED match before it
  tests for a delayed kickoff: with one match at half-time and one TIMED match that
  kicked off thirty minutes ago, it returns PAUSED.
\<close>

theorem determinePollingState_paused_before_delayed_kickoff:
  "determinePollingState 3600000 paused_and_delayed = POLL_PAUSED"
  by (simp add: determinePollingState_def paused_and_delayed_def example_match_def
      UPCOMING_STATUSES_def)

section \<open>Eviction and rediscovery\<close>

text \<open>
  Claim C3. The claim: a one-shot marker is set at most once per match, and once it is
  set the event is never emitted again for a later snapshot. In the run below the
  detector sets \<open>finishedTriggered\<close> on the entry of match 7 and emits the finished and
  won events; \<open>cleanupOldMatches\<close> evicts the entry in the same cycle, kickoff being more
  than four hours back; the next cycle finds the same snapshot uncached and emits both
  events again.
\<close>

theorem finished_match_reemitted_after_eviction:
  "map (\<lambda>e. (ev_name e, ev_teamId e, match_id (ev_match e)))
       (fst (run finished_cycles new_manager)) =
     [(MATCH_FINISHED, 10, 7), (TEAM_WON, 10, 7), (MATCH_FINISHED, 10, 7), (TEAM_WON, 10, 7)]
   \<and> map_option (finishedTriggered \<circ> events)
        (snd (processMatchUpdates [(10, [1])] [example_match 7 FINISHED 0 10 11 2 1] Map.empty) 7)
       = Some True
   \<and> matchCache (snd (run (take 2 finished_cycles) new_manager)) 7 = None"
  by (simp add: finished_cycles_def eval_defs)

section \<open>A failing fetch\<close>

text \<open>
  Claim C5. When the fetch of a poll cycle throws, the cycle emits nothing, leaves the
  match cache, the fired-threshold records, the recorded polling state and the tracked
  teams as they were, and arms one timeout of 60000 ms, whose handle it keeps in
  \<open>pollTimer\<close>: the delay does not depend on the polling state. The same holds for a
  cycle resumed after other steps (\<open>poll_resume\<close> on \<open>Inl\<close>).
\<close>

theorem poll_fetch_error_retries_after_60s:
  assumes "trackedTeams w \<noteq> []" and "fetch (pollingState w = POLL_LIVE) = Inl message"
  shows "fst (poll fetch now w) = []
    \<and> matchCache (snd (poll fetch now w)) = matchCache w
    \<and> matchStartsSoonTriggered (snd (poll fetch now w)) = matchStartsSoonTriggered w
    \<and> pollingState (snd (poll fetch now w)) = pollingState w
    \<and> trackedTeams (snd (poll fetch now w)) = trackedTeams w
    \<and> pollTimer (snd (poll fetch now w)) = Some (nextHandle w)
    \<and> timeouts (snd (poll fetch now w)) = timeouts w @ [(nextHandle w, 60000)]
    \<and> poll_resume trackedTeamIds (Inl message) now w = poll fetch now w"
  using assms by (simp add: poll_def getTrackedTeamIds_def poll_resume_error)

theorem poll_fetch_error_retries_after_60s_witness:
  "trackedTeams live_manager \<noteq> []
   \<and> getPollingInterval live_manager = 30000
   \<and> pollingState (snd (poll (\<lambda>highPriority. Inl ''fetch failed'') 0 live_manager)) = POLL_LIVE
   \<and> timeouts (snd (poll (\<lambda>highPriority. Inl ''fetch failed'') 0 live_manager)) = [(1, 60000)]
   \<and> pollTimer (snd (poll (\<lambda>highPriority. Inl ''fetch failed'') 0 live_manager)) = Some 1"
proof -
  have t: "trackedTeams live_manager \<noteq> []"
    by (simp add: live_manager_def new_manager_def)
  have f: "(\<lambda>highPriority. Inl ''fetch failed'' :: string + match list)
             (pollingState live_manager = POLL_LIVE) = Inl ''fetch failed''"
    by simp
  show ?thesis
    using poll_fetch_error_retries_after_60s [OF t f, of 0 "[10]"]
    by (simp add: live_manager_def new_manager_def getPollingInterval_def)
qed

section \<open>Polling with no tracked team\<close>

text \<open>
  Claim C7, as stated, fails: the delay of the next cycle is that of the recorded
  polling state, which need not be IDLE. In the run below the recorded state is LIVE
  when the last device unregisters; the cycle that was waiting for its fetch completes
  and arms timer 2; when it fires no team is tracked, and the next cycle is armed at
  30000 ms, not at the 900000 ms of IDLE.
\<close>

theorem poll_zero_teams_uses_live_delay:
  "trackedTeams (snd (run (take 5 stale_live_cycles) new_manager)) = []
   \<and> pollingState (snd (run (take 5 stale_live_cycles) new_manager)) = POLL_LIVE
   \<and> timeouts (snd (run (take 5 stale_live_cycles) new_manager)) = [(2, 30000)]
   \<and> timeouts (snd (run stale_live_cycles new_manager)) = [(3, 30000)]
   \<and> POLLING_INTERVALS POLL_IDLE = 900000"
  by (simp add: stale_live_cycles_def eval_defs)

text \<open>
  Claim C7, amended. A poll cycle invoked while no team is tracked consults no fetch and
  issues no request, emits nothing, leaves the recorded polling state and the caches as
  they were, and arms the next cycle at the delay of the recorded polling state (which is
  900000 ms when that state is IDLE), cancelling the handle it held before.
\<close>

theorem poll_zero_teams_schedules_at_state_delay:
  assumes "trackedTeams w = []"
  shows "poll fetch now w = ([], scheduleNextPoll w)
    \<and> poll_begin w = scheduleNextPoll w
    \<and> inflight (scheduleNextPoll w) = inflight w
    \<and> pollingState (scheduleNextPoll w) = pollingState w
    \<and> matchCache (scheduleNextPoll w) = matchCache w
    \<and> matchStartsSoonTriggered (scheduleNextPoll w) = matchStartsSoonTriggered w
    \<and> pollTimer (scheduleNextPoll w) = Some (nextHandle w)
    \<and> timeouts (scheduleNextPoll w) =
        filter (\<lambda>t. Some (fst t) \<noteq> pollTimer w) (timeouts w)
          @ [(nextHandle w, POLLING_INTERVALS (pollingState w))]
    \<and> POLLING_INTERVALS POLL_IDLE = 15 * 60 * 1000"
  using assms
  by (simp add: poll_def poll_begin_def getTrackedTeamIds_def scheduleNextPoll_eq)

theorem poll_zero_teams_schedules_at_state_delay_witness:
  "trackedTeams (new_manager\<lparr>pollingState := POLL_PRE_MATCH\<rparr>) = []
   \<and> poll (\<lambda>highPriority. Inr []) 0 (new_manager\<lparr>pollingState := POLL_PRE_MATCH\<rparr>) =
       ([], new_manager\<lparr>pollingState := POLL_PRE_MATCH, timeouts := [(1, 300000)],
                        nextHandle := 2, pollTimer := Some 1\<rparr>)"
proof -
  have t: "trackedTeams (new_manager\<lparr>pollingState := POLL_PRE_MATCH\<rparr>) = []"
    by (simp add: new_manager_def)
  show ?thesis
    using poll_zero_teams_schedules_at_state_delay [OF t, of "\<lambda>highPriority. Inr []" 0]
    by (simp add: new_manager_def scheduleNextPoll_eq)
qed

section \<open>Unregistering the last device\<close>

text \<open>
  Claim C6, as stated, fails: a state with no tracked team and a pending timer is
  reachable, and a cycle that completes with no tracked team does arm the next one. In
  the run below the only device unregisters while the first cycle waits for its fetch;
  \<open>stopPolling\<close> finds no timer to clear; the cycle completes and arms timer 1; timer 1
  fires with no team tracked and the cycle arms timer 2.
\<close>

theorem zero_teams_timer_pending:
  "trackedTeams (snd (run (take 2 stop_race) new_manager)) = []
   \<and> timeouts (snd (run (take 2 stop_race) new_manager)) = []
   \<and> trackedTeams (snd (run (take 3 stop_race) new_manager)) = []
   \<and> timeouts (snd (run (take 3 stop_race) new_manager)) = [(1, 900000)]
   \<and> trackedTeams (snd (run stop_race new_manager)) = []
   \<and> timeouts (snd (run stop_race new_manager)) = [(2, 900000)]"
  by (simp add: stop_race_def eval_defs)

text \<open>
  Claim C6, amended. When \<open>unregisterDevice\<close> removes the last device of the last tracked
  team, no team is tracked afterwards, \<open>pollTimer\<close> is null and the handle it held is no
  longer pending; nothing else changes. A poll cycle invoked afterwards with no team
  tracked issues no request and does arm another cycle, at the delay of the recorded
  state. (What a cycle does that was waiting for its fetch at that moment is not part of
  this statement.)
\<close>

theorem unregister_last_device_clears_timer:
  assumes "trackedTeams w = [(teamId, [device])]"
  shows "trackedTeams (unregisterDevice teamId device w) = []
    \<and> pollTimer (unregisterDevice teamId device w) = None
    \<and> timeouts (unregisterDevice teamId device w) =
        filter (\<lambda>t. Some (fst t) \<noteq> pollTimer w) (timeouts w)
    \<and> matchCache (unregisterDevice teamId device w) = matchCache w
    \<and> matchStartsSoonTriggered (unregisterDevice teamId device w) = matchStartsSoonTriggered w
    \<and> pollingState (unregisterDevice teamId device w) = pollingState w
    \<and> inflight (poll_begin (unregisterDevice teamId device w)) = inflight w
    \<and> pollTimer (poll_begin (unregisterDevice teamId device w)) = Some (nextHandle w)
    \<and> timeouts (poll_begin (unregisterDevice teamId device w)) =
        filter (\<lambda>t. Some (fst t) \<noteq> pollTimer w) (timeouts w)
          @ [(nextHandle w, POLLING_INTERVALS (pollingState w))]"
  using assms
  by (simp add: unregisterDevice_def stopPolling_eq poll_begin_def getTrackedTeamIds_def
      scheduleNextPoll_eq)

theorem unregister_last_device_clears_timer_witness:
  "trackedTeams (live_manager\<lparr>pollTimer := Some 5, timeouts := [(5, 30000)], nextHandle := 6\<rparr>)
     = [(10, [1])]
   \<and> timeouts (unregisterDevice 10 1
        (live_manager\<lparr>pollTimer := Some 5, timeouts := [(5, 30000)], nextHandle := 6\<rparr>)) = []
   \<and> timeouts (poll_begin (unregisterDevice 10 1
        (live_manager\<lparr>pollTimer := Some 5, timeouts := [(5, 30000)], nextHandle := 6\<rparr>)))
     = [(6, 30000)]"
proof -
  have t: "trackedTeams (live_manager\<lparr>pollTimer := Some 5, timeouts := [(5, 30000)], nextHandle := 6\<rparr>)
     = [(10, [1])]"
    by (simp add: live_manager_def new_manager_def)
  show ?thesis
    using unregister_last_device_clears_timer [OF t]
    by (simp add: live_manager_def new_manager_def)
qed

section \<open>Events carry their match\<close>

lemma emitForTeam_match:
  "ev \<in> set (emitForTeam tracked t n m d) \<Longrightarrow> ev_match ev = m \<and> ev_name ev = n"
  by (auto simp: emitForTeam_def split: if_splits)

lemma emitForTeams_match:
  "ev \<in> set (emitForTeams tracked ts n m d) \<Longrightarrow> ev_match ev = m \<and> ev_name ev = n"
  by (auto simp: emitForTeams_def dest: emitForTeam_match)

lemma emitMatchResult_match:
  "ev \<in> set (emitMatchResult tracked m) \<Longrightarrow>
     ev_match ev = m \<and> ev_name ev \<in> {TEAM_WON, TEAM_LOST, TEAM_DREW}"
  by (auto simp: emitMatchResult_def Let_def split: if_splits
           dest: emitForTeam_match emitForTeams_match)

lemma handleStatusChange_match:
  "ev \<in> set (fst (handleStatusChange tracked m cached)) \<Longrightarrow> ev_match ev = m"
  by (auto simp: handleStatusChange_def Let_def split: if_splits match_status.splits
           dest: emitForTeam_match emitForTeams_match emitMatchResult_match)

lemma handleScoreChange_match:
  "ev \<in> set (handleScoreChange tracked m cached h a) \<Longrightarrow>
     ev_match ev = m \<and> ev_name ev \<in> {TEAM_SCORED, TEAM_CONCEDED, MATCH_RESULT_CHANGED}"
  by (auto simp: handleScoreChange_def emitResultStateChange_def Let_def split: if_splits
           dest: emitForTeam_match)

lemma processMatchUpdate_match:
  "ev \<in> set (fst (processMatchUpdate tracked m cache)) \<Longrightarrow> ev_match ev = m"
  by (auto simp: processMatchUpdate_def Let_def split_def split: option.splits if_splits
           dest: emitForTeams_match emitMatchResult_match handleStatusChange_match
                 handleScoreChange_match)

section \<open>The markers are latches inside the detector\<close>

lemma handleStatusChange_latch:
  "latch n (events cached) \<Longrightarrow> ev \<in> set (fst (handleStatusChange tracked m cached))
     \<Longrightarrow> ev_name ev \<noteq> n"
  by (cases n)
     (auto simp: handleStatusChange_def Let_def split: if_splits match_status.splits
           dest: emitForTeams_match emitMatchResult_match)

lemma handleStatusChange_keeps:
  "latch n (events cached) \<Longrightarrow> latch n (snd (handleStatusChange tracked m cached))"
  by (cases n)
     (auto simp: handleStatusChange_def Let_def split: if_splits match_status.splits)

lemma processMatchUpdate_latch:
  assumes "cache (match_id m) = Some cached" and "latch n (events cached)"
    and "ev \<in> set (fst (processMatchUpdate tracked m cache))"
  shows "ev_name ev \<noteq> n"
proof -
  have "ev \<in> set (fst (handleStatusChange tracked m cached)) \<or>
        ev_name ev \<in> {TEAM_SCORED, TEAM_CONCEDED, MATCH_RESULT_CHANGED}"
    using assms(1,3)
    by (auto simp: processMatchUpdate_def Let_def split_def split: if_splits
             dest: handleScoreChange_match)
  then show ?thesis
    using assms(2) handleStatusChange_latch [of n cached ev tracked m] by (cases n) auto
qed

lemma processMatchUpdate_keeps:
  assumes "cache i = Some cached" and "latch n (events cached)"
  shows "\<exists>c'. snd (processMatchUpdate tracked m cache) i = Some c' \<and> latch n (events c')"
proof (cases "match_id m = i")
  case True
  then show ?thesis
    using assms handleStatusChange_keeps [of n cached tracked m]
    by (auto simp: processMatchUpdate_def createMatchState_def Let_def split_def)
next
  case False
  then show ?thesis
    using assms by (auto simp: processMatchUpdate_def Let_def split_def split: option.splits)
qed

lemma processMatchUpdates_Cons:
  "processMatchUpdates tracked (m # matches) cache =
    (fst (processMatchUpdate tracked m cache)
       @ fst (processMatchUpdates tracked matches (snd (processMatchUpdate tracked m cache))),
     snd (processMatchUpdates tracked matches (snd (processMatchUpdate tracked m cache))))"
  by (simp add: split_def Let_def)

lemma processMatchUpdates_latch:
  "cache i = Some cached \<Longrightarrow> latch n (events cached)
    \<Longrightarrow> ev \<in> set (fst (processMatchUpdates tracked matches cache))
    \<Longrightarrow> \<not> (ev_name ev = n \<and> match_id (ev_match ev) = i)"
proof (induction matches arbitrary: cache cached)
  case Nil
  then show ?case by simp
next
  case (Cons m matches)
  obtain c' where c': "snd (processMatchUpdate tracked m cache) i = Some c'" "latch n (events c')"
    using processMatchUpdate_keeps [of cache i cached n tracked m] Cons.prems(1,2) by blast
  from Cons.prems(3) consider
      (here) "ev \<in> set (fst (processMatchUpdate tracked m cache))"
    | (later) "ev \<in> set (fst (processMatchUpdates tracked matches
                                (snd (processMatchUpdate tracked m cache))))"
    by (auto simp: processMatchUpdates_Cons simp del: processMatchUpdates.simps)
  then show ?case
  proof cases
    case here
    show ?thesis
    proof (cases "match_id m = i")
      case True
      then show ?thesis
        using processMatchUpdate_latch [of cache m cached n ev tracked] Cons.prems(1,2) here
        by auto
    next
      case False
      then show ?thesis using processMatchUpdate_match [OF here] by auto
    qed
  next
    case later
    then show ?thesis
      using Cons.IH [of "snd (processMatchUpdate tracked m cache)" c'] c' by blast
  qed
qed

section \<open>The threshold check, exactly\<close>

lemma firedFor_upd: "firedFor (triggered(i \<mapsto> s)) i = s"
  by (simp add: firedFor_def)

lemma checkThresholds_step:
  "checkThresholds tracked m mu (th # ths) triggered =
    (if mu \<le> of_nat th \<and> mu > 0 \<and> th \<notin> set (firedFor triggered (match_id m))
     then (soon_events tracked m [th]
             @ fst (checkThresholds tracked m mu ths
                      (triggered(match_id m \<mapsto> firedFor triggered (match_id m) @ [th]))),
           snd (checkThresholds tracked m mu ths
                  (triggered(match_id m \<mapsto> firedFor triggered (match_id m) @ [th]))))
     else checkThresholds tracked m mu ths triggered)"
  by (simp add: Let_def split_def firedFor_def soon_events_def)

lemma checkThresholds_eq:
  "checkThresholds tracked m mu ths triggered =
    (soon_events tracked m (firing mu (firedFor triggered (match_id m)) ths),
     if firing mu (firedFor triggered (match_id m)) ths = [] then triggered
     else triggered(match_id m \<mapsto>
            firedFor triggered (match_id m) @ firing mu (firedFor triggered (match_id m)) ths))"
proof (induction ths arbitrary: triggered)
  case Nil
  then show ?case by (simp add: soon_events_def)
next
  case (Cons th ths)
  define f0 where "f0 = firedFor triggered (match_id m)"
  define tr1 where "tr1 = triggered(match_id m \<mapsto> f0 @ [th])"
  have f1: "firedFor tr1 (match_id m) = f0 @ [th]"
    by (simp add: tr1_def firedFor_upd)
  have upd: "tr1(match_id m \<mapsto> X) = triggered(match_id m \<mapsto> X)" for X
    by (simp add: tr1_def)
  have ih1: "checkThresholds tracked m mu ths tr1 =
      (soon_events tracked m (firing mu (f0 @ [th]) ths),
       if firing mu (f0 @ [th]) ths = [] then tr1
       else triggered(match_id m \<mapsto> f0 @ th # firing mu (f0 @ [th]) ths))"
    using Cons.IH [of tr1] by (simp only: f1 upd append_assoc append_Cons append_Nil)
  have ih0: "checkThresholds tracked m mu ths triggered =
      (soon_events tracked m (firing mu f0 ths),
       if firing mu f0 ths = [] then triggered
       else triggered(match_id m \<mapsto> f0 @ firing mu f0 ths))"
    using Cons.IH [of triggered] by (simp only: f0_def)
  have step: "checkThresholds tracked m mu (th # ths) triggered =
      (if mu \<le> of_nat th \<and> mu > 0 \<and> th \<notin> set f0
       then (soon_events tracked m [th] @ fst (checkThresholds tracked m mu ths tr1),
             snd (checkThresholds tracked m mu ths tr1))
       else checkThresholds tracked m mu ths triggered)"
    by (simp only: checkThresholds_step f0_def tr1_def)
  have app: "soon_events tracked m [th] @ soon_events tracked m xs = soon_events tracked m (th # xs)"
    for xs
    by (simp add: soon_events_def)
  have goal: "checkThresholds tracked m mu (th # ths) triggered =
      (soon_events tracked m (firing mu f0 (th # ths)),
       if firing mu f0 (th # ths) = [] then triggered
       else triggered(match_id m \<mapsto> f0 @ firing mu f0 (th # ths)))"
  proof (cases "mu \<le> of_nat th \<and> mu > 0 \<and> th \<notin> set f0")
    case True
    then have fir: "firing mu f0 (th # ths) = th # firing mu (f0 @ [th]) ths"
      by simp
    have "checkThresholds tracked m mu (th # ths) triggered =
        (soon_events tracked m (th # firing mu (f0 @ [th]) ths),
         triggered(match_id m \<mapsto> f0 @ th # firing mu (f0 @ [th]) ths))"
      using True
      by (simp only: step ih1 if_True fst_conv snd_conv app) (simp add: tr1_def)
    then show ?thesis
      by (simp only: fir) simp
  next
    case False
    then have fir: "firing mu f0 (th # ths) = firing mu f0 ths"
      by auto
    have "checkThresholds tracked m mu (th # ths) triggered =
        checkThresholds tracked m mu ths triggered"
      using False by (simp only: step if_False)
    then show ?thesis
      by (simp only: fir ih0)
  qed
  show ?case
    using goal by (simp only: f0_def)
qed

lemma firing_mem: "x \<in> set (firing mu fired ths) \<Longrightarrow> x \<in> set ths \<and> x \<notin> set fired"
proof (induction ths arbitrary: fired)
  case Nil
  then show ?case by simp
next
  case (Cons th ths)
  show ?case
  proof (cases "mu \<le> of_nat th \<and> mu > 0 \<and> th \<notin> set fired")
    case True
    then have "x = th \<or> x \<in> set (firing mu (fired @ [th]) ths)"
      using Cons.prems by auto
    then show ?thesis
      using True Cons.IH [of "fired @ [th]"] by auto
  next
    case False
    then have "x \<in> set (firing mu fired ths)"
      using Cons.prems by auto
    then show ?thesis using Cons.IH [of fired] by auto
  qed
qed

lemma soon_events_data:
  "ev \<in> set (soon_events tracked m ths) \<Longrightarrow>
     ev_match ev = m \<and> ev_name ev = MATCH_STARTS_SOON \<and> (\<exists>th \<in> set ths. ev_data ev = Minutes th)"
  by (auto simp: soon_events_def emitForTeams_def emitForTeam_def split: if_splits)

lemma checkThresholds_other:
  "i \<noteq> match_id m \<Longrightarrow>
     firedFor (snd (checkThresholds tracked m mu ths triggered)) i = firedFor triggered i"
  by (simp add: checkThresholds_eq firedFor_def)

lemma checkThresholds_same:
  "firedFor (snd (checkThresholds tracked m mu ths triggered)) (match_id m) =
     firedFor triggered (match_id m) @ firing mu (firedFor triggered (match_id m)) ths"
  by (simp add: checkThresholds_eq firedFor_def)

lemma checkMatchStartsSoon_Cons:
  "checkMatchStartsSoon tracked now (m # matches) triggered =
    (let r = (if status m \<notin> set UPCOMING_STATUSES then ([], triggered)
              else checkThresholds tracked m (minutesUntil now m) MATCH_SOON_THRESHOLDS triggered)
     in (fst r @ fst (checkMatchStartsSoon tracked now matches (snd r)),
         snd (checkMatchStartsSoon tracked now matches (snd r))))"
  by (simp add: split_def Let_def minutesUntil_def)

lemma checkMatchStartsSoon_fired:
  "t \<in> set (firedFor triggered i)
    \<Longrightarrow> ev \<in> set (fst (checkMatchStartsSoon tracked now matches triggered))
    \<Longrightarrow> \<not> (match_id (ev_match ev) = i \<and> ev_data ev = Minutes t)"
proof (induction matches arbitrary: triggered)
  case Nil
  then show ?case by simp
next
  case (Cons m matches)
  define r where "r = (if status m \<notin> set UPCOMING_STATUSES then ([], triggered)
              else checkThresholds tracked m (minutesUntil now m) MATCH_SOON_THRESHOLDS triggered)"
  have keep: "t \<in> set (firedFor (snd r) i)"
  proof (cases "match_id m = i")
    case True
    then show ?thesis
      using Cons.prems(1) checkThresholds_same [of tracked m] by (simp add: r_def)
  next
    case False
    then show ?thesis
      using Cons.prems(1) checkThresholds_other [of i m] by (simp add: r_def)
  qed
  have "ev \<in> set (fst r) \<or> ev \<in> set (fst (checkMatchStartsSoon tracked now matches (snd r)))"
    using Cons.prems(2)
    by (simp add: checkMatchStartsSoon_Cons r_def Let_def del: checkMatchStartsSoon.simps)
  then show ?case
  proof
    assume here: "ev \<in> set (fst r)"
    then have ev: "ev \<in> set (soon_events tracked m
        (firing (minutesUntil now m) (firedFor triggered (match_id m)) MATCH_SOON_THRESHOLDS))"
      by (simp add: r_def checkThresholds_eq split: if_splits)
    show ?thesis
    proof
      assume a: "match_id (ev_match ev) = i \<and> ev_data ev = Minutes t"
      from soon_events_data [OF ev] a
      have "match_id m = i" and
        "t \<in> set (firing (minutesUntil now m) (firedFor triggered (match_id m)) MATCH_SOON_THRESHOLDS)"
        by auto
      then show False
        using firing_mem [of t "minutesUntil now m" "firedFor triggered (match_id m)"
            MATCH_SOON_THRESHOLDS] Cons.prems(1)
        by blast
    qed
  next
    assume "ev \<in> set (fst (checkMatchStartsSoon tracked now matches (snd r)))"
    then show ?thesis
      by (rule Cons.IH [OF keep])
  qed
qed

section \<open>Stopping\<close>

text \<open>
  Claim C10. \<open>stopPolling\<close> leaves the tracked teams, the match cache, the fired-threshold
  records and the polling state as they were, and \<open>pollTimer\<close> is null afterwards. So on
  the caches it leaves, a later cycle (whatever teams are tracked then, whatever the
  matches and the clock) emits no event for a match whose cache entry has the marker of
  that event set, and no starts-soon event with a threshold that is in the match's
  record.
\<close>

theorem stopPolling_frame:
  "trackedTeams (stopPolling w) = trackedTeams w
   \<and> matchCache (stopPolling w) = matchCache w
   \<and> matchStartsSoonTriggered (stopPolling w) = matchStartsSoonTriggered w
   \<and> pollingState (stopPolling w) = pollingState w
   \<and> nextHandle (stopPolling w) = nextHandle w
   \<and> inflight (stopPolling w) = inflight w
   \<and> pollTimer (stopPolling w) = None
   \<and> (\<forall>cached n ev. matchCache w i = Some cached \<and> latch n (events cached)
         \<and> ev \<in> set (fst (processMatchUpdates tracked matches (matchCache (stopPolling w))))
        \<longrightarrow> \<not> (ev_name ev = n \<and> match_id (ev_match ev) = i))
   \<and> (\<forall>t ev. t \<in> set (firedFor (matchStartsSoonTriggered w) i)
         \<and> ev \<in> set (fst (checkMatchStartsSoon tracked now matches
                             (matchStartsSoonTriggered (stopPolling w))))
        \<longrightarrow> \<not> (match_id (ev_match ev) = i \<and> ev_data ev = Minutes t))"
proof -
  have frame: "trackedTeams (stopPolling w) = trackedTeams w
     \<and> matchCache (stopPolling w) = matchCache w
     \<and> matchStartsSoonTriggered (stopPolling w) = matchStartsSoonTriggered w
     \<and> pollingState (stopPolling w) = pollingState w
     \<and> nextHandle (stopPolling w) = nextHandle w
     \<and> inflight (stopPolling w) = inflight w
     \<and> pollTimer (stopPolling w) = None"
    by (simp add: stopPolling_eq)
  have a: "\<not> (ev_name ev = n \<and> match_id (ev_match ev) = i)"
    if "matchCache w i = Some cached" "latch n (events cached)"
       "ev \<in> set (fst (processMatchUpdates tracked matches (matchCache (stopPolling w))))"
    for cached n ev
    using that frame processMatchUpdates_latch [of "matchCache w" i cached n ev tracked matches]
    by simp
  have b: "\<not> (match_id (ev_match ev) = i \<and> ev_data ev = Minutes t)"
    if "t \<in> set (firedFor (matchStartsSoonTriggered w) i)"
       "ev \<in> set (fst (checkMatchStartsSoon tracked now matches
                             (matchStartsSoonTriggered (stopPolling w))))"
    for t ev
    using that frame
      checkMatchStartsSoon_fired [of t "matchStartsSoonTriggered w" i ev tracked now matches]
    by simp
  show ?thesis
    using frame a b by blast
qed

theorem stopPolling_frame_witness:
  "pollTimer watching_manager = Some 1
   \<and> pollTimer (stopPolling watching_manager) = None
   \<and> timeouts (stopPolling watching_manager) = []
   \<and> MATCH_KICKOFF \<notin> ev_name ` set (fst (processMatchUpdates [(10, [1])]
         [example_match 7 IN_PLAY 7200000 10 11 0 0] (matchCache (stopPolling watching_manager))))
   \<and> Minutes 120 \<notin> ev_data ` set (fst (checkMatchStartsSoon [(10, [1])] 1200000
         [example_match 7 TIMED 7200000 10 11 0 0]
         (matchStartsSoonTriggered (stopPolling watching_manager))))
   \<and> Minutes 120 \<in> ev_data ` set (fst (checkMatchStartsSoon [(10, [1])] 1200000
         [example_match 7 TIMED 7200000 10 11 0 0] Map.empty))"
  using stopPolling_frame [of watching_manager 7 "[(10, [1])]"
      "[example_match 7 IN_PLAY 7200000 10 11 0 0]" 1200000]
  by (simp add: watching_manager_def live_manager_def eval_defs stopPolling_eq)

section \<open>Score changes\<close>

lemma handleStatusChange_names:
  "ev \<in> set (fst (handleStatusChange tracked m cached)) \<Longrightarrow>
     ev_name ev \<in> {MATCH_KICKOFF, SECOND_HALF_STARTED, HALFTIME_STARTED, MATCH_FINISHED,
                    TEAM_WON, TEAM_LOST, TEAM_DREW}"
  by (auto simp: handleStatusChange_def Let_def split: if_splits match_status.splits
           dest: emitForTeams_match emitMatchResult_match)

lemma events_to_append:
  "events_to n t (xs @ ys) = events_to n t xs @ events_to n t ys"
  by (simp add: events_to_def)

lemma events_to_Nil: "events_to n t [] = []"
  by (simp add: events_to_def)

lemma events_to_none:
  "(\<And>ev. ev \<in> set es \<Longrightarrow> ev_name ev \<noteq> n) \<Longrightarrow> events_to n t es = []"
  by (induction es) (auto simp: events_to_def)

lemma events_to_handleStatusChange:
  "n \<in> {TEAM_SCORED, TEAM_CONCEDED, MATCH_RESULT_CHANGED} \<Longrightarrow>
     events_to n t (fst (handleStatusChange tracked m cached)) = []"
  by (rule events_to_none) (auto dest: handleStatusChange_names)

lemma processMatchUpdate_cached:
  "cache (match_id m) = Some c \<Longrightarrow>
   processMatchUpdate tracked m cache =
     ((if cached_status c \<noteq> status m then fst (handleStatusChange tracked m c) else [])
        @ (if status m \<in> set LIVE_STATUSES
              \<and> (freshScore Home m \<noteq> homeScore c \<or> freshScore Away m \<noteq> awayScore c)
           then handleScoreChange tracked m c (freshScore Home m) (freshScore Away m) else []),
      cache(match_id m \<mapsto>
        createMatchState m
          (Some (if cached_status c \<noteq> status m then snd (handleStatusChange tracked m c)
                 else events c))))"
  by (simp add: processMatchUpdate_def Let_def split_def)

lemma processMatchUpdate_new_names:
  "cache (match_id m) = None \<Longrightarrow> ev \<in> set (fst (processMatchUpdate tracked m cache)) \<Longrightarrow>
     ev_name ev \<in> {MATCH_KICKOFF, HALFTIME_STARTED, MATCH_FINISHED, TEAM_WON, TEAM_LOST, TEAM_DREW}"
  by (auto simp: processMatchUpdate_def Let_def split_def split: if_splits
           dest: emitForTeams_match emitMatchResult_match)

lemma processMatchUpdate_scores:
  "\<exists>c'. snd (processMatchUpdate tracked m cache) (match_id m) = Some c'
     \<and> homeScore c' = freshScore Home m \<and> awayScore c' = freshScore Away m"
  by (cases "cache (match_id m)")
     (simp_all add: processMatchUpdate_def createMatchState_def Let_def split_def)

lemma scored_by_handleScoreChange:
  assumes "homeTeam m \<noteq> awayTeam m"
  shows "events_to TEAM_SCORED (sideTeam s m)
           (handleScoreChange tracked m c (freshScore Home m) (freshScore Away m)) =
         (if cachedScore s c < freshScore s m
          then emitForTeam tracked (sideTeam s m) TEAM_SCORED m
                 (NewScore (freshScore Home m) (freshScore Away m))
          else [])"
  using assms
  by (cases s)
     (simp_all add: handleScoreChange_def emitResultStateChange_def emitForTeam_def
        events_to_def Let_def)

lemma conceded_by_handleScoreChange:
  assumes "homeTeam m \<noteq> awayTeam m"
  shows "events_to TEAM_CONCEDED (sideTeam (otherSide s) m)
           (handleScoreChange tracked m c (freshScore Home m) (freshScore Away m)) =
         (if cachedScore s c < freshScore s m
          then emitForTeam tracked (sideTeam (otherSide s) m) TEAM_CONCEDED m
                 (ConcededTo (sideTeam s m) (freshScore Home m) (freshScore Away m))
          else [])"
  using assms
  by (cases s)
     (simp_all add: handleScoreChange_def emitResultStateChange_def emitForTeam_def
        events_to_def Let_def)

lemma result_by_handleScoreChange:
  assumes "homeTeam m \<noteq> awayTeam m"
  shows "events_to MATCH_RESULT_CHANGED (sideTeam r m)
           (handleScoreChange tracked m c (freshScore Home m) (freshScore Away m)) =
         (if getResultState (cachedScore r c) (cachedScore (otherSide r) c)
               \<noteq> getResultState (freshScore r m) (freshScore (otherSide r) m)
          then emitForTeam tracked (sideTeam r m) MATCH_RESULT_CHANGED m
                 (ResultChange (getResultState (freshScore r m) (freshScore (otherSide r) m))
                    (freshScore r m) (freshScore (otherSide r) m))
          else [])"
  using assms
  by (cases r)
     (simp_all add: handleScoreChange_def emitResultStateChange_def emitForTeam_def
        events_to_def Let_def)

text \<open>What one cycle emits to a side of a cached match for its goals.\<close>

lemma scored_in_cycle:
  assumes "cache (match_id m) = Some c" and "homeTeam m \<noteq> awayTeam m"
  shows "events_to TEAM_SCORED (sideTeam s m) (fst (processMatchUpdate tracked m cache)) =
         (if status m \<in> set LIVE_STATUSES \<and> cachedScore s c < freshScore s m
          then emitForTeam tracked (sideTeam s m) TEAM_SCORED m
                 (NewScore (freshScore Home m) (freshScore Away m))
          else [])"
proof -
  have "cachedScore s c < freshScore s m \<Longrightarrow>
      freshScore Home m \<noteq> homeScore c \<or> freshScore Away m \<noteq> awayScore c"
    by (cases s) auto
  then show ?thesis
    using scored_by_handleScoreChange [OF assms(2), of s tracked c] assms(1)
    by (auto simp: processMatchUpdate_cached [of cache m c] events_to_append
        events_to_handleStatusChange events_to_Nil)
qed

lemma conceded_in_cycle:
  assumes "cache (match_id m) = Some c" and "homeTeam m \<noteq> awayTeam m"
  shows "events_to TEAM_CONCEDED (sideTeam (otherSide s) m)
           (fst (processMatchUpdate tracked m cache)) =
         (if status m \<in> set LIVE_STATUSES \<and> cachedScore s c < freshScore s m
          then emitForTeam tracked (sideTeam (otherSide s) m) TEAM_CONCEDED m
                 (ConcededTo (sideTeam s m) (freshScore Home m) (freshScore Away m))
          else [])"
proof -
  have "cachedScore s c < freshScore s m \<Longrightarrow>
      freshScore Home m \<noteq> homeScore c \<or> freshScore Away m \<noteq> awayScore c"
    by (cases s) auto
  then show ?thesis
    using conceded_by_handleScoreChange [OF assms(2), of s tracked c] assms(1)
    by (auto simp: processMatchUpdate_cached [of cache m c] events_to_append
        events_to_handleStatusChange events_to_Nil)
qed

lemma result_in_cycle:
  assumes "cache (match_id m) = Some c" and "homeTeam m \<noteq> awayTeam m"
    and "status m \<in> set LIVE_STATUSES"
  shows "events_to MATCH_RESULT_CHANGED (sideTeam r m)
           (fst (processMatchUpdate tracked m cache)) =
         (if getResultState (cachedScore r c) (cachedScore (otherSide r) c)
               \<noteq> getResultState (freshScore r m) (freshScore (otherSide r) m)
          then emitForTeam tracked (sideTeam r m) MATCH_RESULT_CHANGED m
                 (ResultChange (getResultState (freshScore r m) (freshScore (otherSide r) m))
                    (freshScore r m) (freshScore (otherSide r) m))
          else [])"
proof -
  have "getResultState (cachedScore r c) (cachedScore (otherSide r) c)
          \<noteq> getResultState (freshScore r m) (freshScore (otherSide r) m) \<Longrightarrow>
      freshScore Home m \<noteq> homeScore c \<or> freshScore Away m \<noteq> awayScore c"
    by (cases r) auto
  then show ?thesis
    using result_by_handleScoreChange [OF assms(2), of r tracked c] assms(3) assms(1)
    by (auto simp: processMatchUpdate_cached [of cache m c] events_to_append
        events_to_handleStatusChange events_to_Nil)
qed

lemma processMatchUpdates_single:
  "processMatchUpdates tracked [m] cache = processMatchUpdate tracked m cache"
  by (simp add: split_def)

section \<open>A score that goes down\<close>

text \<open>
  Claim C9, as stated, fails in its last part: an event goes out only to a tracked team.
  Team 10 is tracked, team 11 is not; the cache holds their match in play at 1-0 and the
  fresh snapshot says 0-0. Both sides change result state (team 10 from winning to
  drawing, team 11 from losing to drawing), and the only event emitted is the result
  change of team 10.
\<close>

theorem result_change_only_to_tracked_side:
  "map (\<lambda>e. (ev_name e, ev_teamId e, ev_data e))
     (fst (processMatchUpdates [(10, [1])] [example_match 7 IN_PLAY 0 10 11 0 0]
        [7 \<mapsto> createMatchState (example_match 7 IN_PLAY 0 10 11 1 0) None]))
     = [(MATCH_RESULT_CHANGED, 10, ResultChange drawing 0 0)]
   \<and> getResultState 0 1 = losing \<and> getResultState 0 0 = drawing"
  by (simp add: eval_defs)

text \<open>
  Claim C9, amended. For a cached match whose fresh status is IN_PLAY or PAUSED and a
  side \<open>s\<close> whose fresh score is strictly below the cached one: the cycle emits no
  team_scored event to that side and no team_conceded event to the other side; the cache
  entry is replaced and holds the fresh scores; and for each side \<open>r\<close>, one
  match_result_changed event carrying the new result state goes to that side if its
  result state changed and its team is tracked, and none otherwise.
\<close>

theorem score_decrease_in_cycle:
  assumes "cache (match_id m) = Some c"
    and "status m \<in> set LIVE_STATUSES"
    and "freshScore s m < cachedScore s c"
    and "homeTeam m \<noteq> awayTeam m"
  shows "events_to TEAM_SCORED (sideTeam s m) (fst (processMatchUpdates tracked [m] cache)) = []
    \<and> events_to TEAM_CONCEDED (sideTeam (otherSide s) m)
         (fst (processMatchUpdates tracked [m] cache)) = []
    \<and> map_option (\<lambda>c'. (homeScore c', awayScore c'))
         (snd (processMatchUpdates tracked [m] cache) (match_id m))
       = Some (freshScore Home m, freshScore Away m)
    \<and> events_to MATCH_RESULT_CHANGED (sideTeam r m)
         (fst (processMatchUpdates tracked [m] cache)) =
       (if getResultState (cachedScore r c) (cachedScore (otherSide r) c)
             \<noteq> getResultState (freshScore r m) (freshScore (otherSide r) m)
           \<and> sideTeam r m \<in> fst ` set tracked
        then [\<lparr>ev_name = MATCH_RESULT_CHANGED, ev_teamId = sideTeam r m, ev_match = m,
               ev_data = ResultChange
                 (getResultState (freshScore r m) (freshScore (otherSide r) m))
                 (freshScore r m) (freshScore (otherSide r) m)\<rparr>]
        else [])"
proof -
  have a: "events_to TEAM_SCORED (sideTeam s m) (fst (processMatchUpdate tracked m cache)) = []"
    using assms(3) by (simp add: scored_in_cycle [of cache m c, OF assms(1) assms(4)])
  have b: "events_to TEAM_CONCEDED (sideTeam (otherSide s) m)
         (fst (processMatchUpdate tracked m cache)) = []"
    using assms(3) by (simp add: conceded_in_cycle [of cache m c, OF assms(1) assms(4)])
  obtain c' where c': "snd (processMatchUpdate tracked m cache) (match_id m) = Some c'"
      "homeScore c' = freshScore Home m" "awayScore c' = freshScore Away m"
    using processMatchUpdate_scores [of tracked m cache] by blast
  have d: "events_to MATCH_RESULT_CHANGED (sideTeam r m)
         (fst (processMatchUpdate tracked m cache)) =
       (if getResultState (cachedScore r c) (cachedScore (otherSide r) c)
             \<noteq> getResultState (freshScore r m) (freshScore (otherSide r) m)
           \<and> sideTeam r m \<in> fst ` set tracked
        then [\<lparr>ev_name = MATCH_RESULT_CHANGED, ev_teamId = sideTeam r m, ev_match = m,
               ev_data = ResultChange
                 (getResultState (freshScore r m) (freshScore (otherSide r) m))
                 (freshScore r m) (freshScore (otherSide r) m)\<rparr>]
        else [])"
    by (simp add: result_in_cycle [of cache m c, OF assms(1) assms(4) assms(2)] emitForTeam_def)
  show ?thesis
    using a b c' d by (simp add: processMatchUpdates_single)
qed

theorem score_decrease_in_cycle_witness:
  "events_to TEAM_SCORED 10
     (fst (processMatchUpdates [(10, [1]), (11, [2])] [example_match 7 PAUSED 0 10 11 1 1]
        [7 \<mapsto> createMatchState (example_match 7 IN_PLAY 0 10 11 2 1) None])) = []
   \<and> events_to TEAM_CONCEDED 11
     (fst (processMatchUpdates [(10, [1]), (11, [2])] [example_match 7 PAUSED 0 10 11 1 1]
        [7 \<mapsto> createMatchState (example_match 7 IN_PLAY 0 10 11 2 1) None])) = []
   \<and> map ev_data (events_to MATCH_RESULT_CHANGED 11
     (fst (processMatchUpdates [(10, [1]), (11, [2])] [example_match 7 PAUSED 0 10 11 1 1]
        [7 \<mapsto> createMatchState (example_match 7 IN_PLAY 0 10 11 2 1) None])))
     = [ResultChange drawing 1 1]"
proof -
  have c: "[7 \<mapsto> createMatchState (example_match 7 IN_PLAY 0 10 11 2 1) None]
             (match_id (example_match 7 PAUSED 0 10 11 1 1))
           = Some (createMatchState (example_match 7 IN_PLAY 0 10 11 2 1) None)"
    by (simp add: example_match_def)
  have l: "status (example_match 7 PAUSED 0 10 11 1 1) \<in> set LIVE_STATUSES"
    by (simp add: example_match_def LIVE_STATUSES_def)
  have d: "freshScore Home (example_match 7 PAUSED 0 10 11 1 1)
            < cachedScore Home (createMatchState (example_match 7 IN_PLAY 0 10 11 2 1) None)"
    by (simp add: example_match_def createMatchState_def currentScore_def)
  have t: "homeTeam (example_match 7 PAUSED 0 10 11 1 1)
             \<noteq> awayTeam (example_match 7 PAUSED 0 10 11 1 1)"
    by (simp add: example_match_def)
  show ?thesis
    using score_decrease_in_cycle [of "[7 \<mapsto> createMatchState (example_match 7 IN_PLAY 0 10 11 2 1) None]"
        "example_match 7 PAUSED 0 10 11 1 1"
        "createMatchState (example_match 7 IN_PLAY 0 10 11 2 1) None" Home
        "[(10, [1]), (11, [2])]" Away, OF c l d t]
    by (simp add: example_match_def createMatchState_def currentScore_def getResultState_def)
qed

section \<open>Counting goals\<close>

lemma poll_cycles_Cons:
  "poll_cycles w ((now, m) # cycles) =
     fst (poll (\<lambda>highPriority. Inr [m]) now w)
       @ poll_cycles (snd (poll (\<lambda>highPriority. Inr [m]) now w)) cycles"
  by (simp add: split_def Let_def)

text \<open>
  A whole cycle whose feed is one match of a tracked team: the events are those of the
  detector followed by those of the threshold check, the tracked teams stay, and the
  cache is the detector's after the eviction of \<open>cleanupOldMatches\<close>.
\<close>

lemma poll_relevant:
  assumes "homeTeam m \<in> fst ` set (trackedTeams w) \<or> awayTeam m \<in> fst ` set (trackedTeams w)"
  shows "fst (poll (\<lambda>highPriority. Inr [m]) now w) =
           fst (processMatchUpdate (trackedTeams w) m (matchCache w))
           @ fst (checkMatchStartsSoon (trackedTeams w) now [m] (matchStartsSoonTriggered w))"
    and "trackedTeams (snd (poll (\<lambda>highPriority. Inr [m]) now w)) = trackedTeams w"
    and "matchCache (snd (poll (\<lambda>highPriority. Inr [m]) now w)) i =
           (case snd (processMatchUpdate (trackedTeams w) m (matchCache w)) i of
              None \<Rightarrow> None
            | Some cached \<Rightarrow>
                if cached_status cached \<in> set COMPLETED_STATUSES
                   \<and> cached_utcDate cached + 2 * 60 * 60 * 1000 < now - 2 * 60 * 60 * 1000
                then None else Some cached)"
proof -
  have ne: "trackedTeams w \<noteq> []"
    using assms by auto
  have rel: "filter (\<lambda>m. homeTeam m \<in> set (map fst (trackedTeams w))
                        \<or> awayTeam m \<in> set (map fst (trackedTeams w))) [m] = [m]"
    using assms by simp
  have whole: "poll (\<lambda>highPriority. Inr [m]) now w =
      poll_resume (map fst (trackedTeams w)) (Inr [m]) now w"
    using ne by (simp add: poll_def getTrackedTeamIds_def)
  show "fst (poll (\<lambda>highPriority. Inr [m]) now w) =
           fst (processMatchUpdate (trackedTeams w) m (matchCache w))
           @ fst (checkMatchStartsSoon (trackedTeams w) now [m] (matchStartsSoonTriggered w))"
    unfolding whole poll_resume_def
    by (simp only: sum.case rel Let_def split_def fst_conv processMatchUpdates_single)
       (simp del: checkMatchStartsSoon.simps)
  show "trackedTeams (snd (poll (\<lambda>highPriority. Inr [m]) now w)) = trackedTeams w"
    unfolding whole poll_resume_def
    by (simp only: sum.case rel Let_def split_def snd_conv)
       (simp add: scheduleNextPoll_eq cleanupOldMatches_def Let_def
          del: checkMatchStartsSoon.simps processMatchUpdates.simps)
  show "matchCache (snd (poll (\<lambda>highPriority. Inr [m]) now w)) i =
           (case snd (processMatchUpdate (trackedTeams w) m (matchCache w)) i of
              None \<Rightarrow> None
            | Some cached \<Rightarrow>
                if cached_status cached \<in> set COMPLETED_STATUSES
                   \<and> cached_utcDate cached + 2 * 60 * 60 * 1000 < now - 2 * 60 * 60 * 1000
                then None else Some cached)"
    unfolding whole poll_resume_def
    by (simp only: sum.case rel Let_def split_def snd_conv processMatchUpdates_single)
       (simp add: scheduleNextPoll_eq cleanupOldMatches_def Let_def
          del: checkMatchStartsSoon.simps split: option.split)
qed

text \<open>A cycle whose feed is one match of two untracked teams emits nothing.\<close>

lemma poll_irrelevant:
  assumes "homeTeam m \<notin> fst ` set (trackedTeams w)"
    and "awayTeam m \<notin> fst ` set (trackedTeams w)"
  shows "fst (poll (\<lambda>highPriority. Inr [m]) now w) = []"
    and "trackedTeams (snd (poll (\<lambda>highPriority. Inr [m]) now w)) = trackedTeams w"
  using assms
  by (simp_all add: poll_def getTrackedTeamIds_def poll_resume_def split_def Let_def
      scheduleNextPoll_eq cleanupOldMatches_def)

lemma poll_cycles_irrelevant:
  assumes "\<forall>(now, m) \<in> set cycles. homeTeam m = h \<and> awayTeam m = a"
    and "h \<notin> fst ` set (trackedTeams w)" and "a \<notin> fst ` set (trackedTeams w)"
  shows "poll_cycles w cycles = []"
  using assms
proof (induction cycles arbitrary: w)
  case Nil
  then show ?case by simp
next
  case (Cons x cycles)
  obtain now m where x: "x = (now, m)"
    by (cases x)
  have m: "homeTeam m = h" "awayTeam m = a"
    using Cons.prems(1) x by auto
  have rest: "\<forall>(now, m) \<in> set cycles. homeTeam m = h \<and> awayTeam m = a"
    using Cons.prems(1) by simp
  have none: "fst (poll (\<lambda>highPriority. Inr [m]) now w) = []"
    and same: "trackedTeams (snd (poll (\<lambda>highPriority. Inr [m]) now w)) = trackedTeams w"
    using poll_irrelevant [of m w now] Cons.prems(2,3) m by simp_all
  have "poll_cycles (snd (poll (\<lambda>highPriority. Inr [m]) now w)) cycles = []"
    using Cons.IH [OF rest] Cons.prems(2,3) same by simp
  then show ?case
    using none by (simp add: x poll_cycles_Cons del: poll_cycles.simps)
qed

lemma checkMatchStartsSoon_names:
  "ev \<in> set (fst (checkMatchStartsSoon tracked now matches triggered))
    \<Longrightarrow> ev_name ev = MATCH_STARTS_SOON"
proof (induction matches arbitrary: triggered)
  case Nil
  then show ?case by simp
next
  case (Cons m matches)
  then show ?case
    by (auto simp: checkMatchStartsSoon_Cons Let_def checkThresholds_eq soon_events_def
        simp del: checkMatchStartsSoon.simps split: if_splits dest: emitForTeams_match)
qed

lemma events_to_checkMatchStartsSoon:
  "n \<noteq> MATCH_STARTS_SOON \<Longrightarrow>
     events_to n t (fst (checkMatchStartsSoon tracked now matches triggered)) = []"
  by (rule events_to_none) (auto dest: checkMatchStartsSoon_names)

lemma processMatchUpdate_entry:
  "\<exists>c'. snd (processMatchUpdate tracked m cache) (match_id m) = Some c'
     \<and> homeScore c' = freshScore Home m \<and> awayScore c' = freshScore Away m
     \<and> cached_status c' = status m \<and> cached_utcDate c' = utcDate m"
  by (cases "cache (match_id m)")
     (simp_all add: processMatchUpdate_def createMatchState_def Let_def split_def)

text \<open>
  The entry a cycle leaves for the match of its feed, when a side of the match is
  tracked: none if the snapshot is one whose entry is evicted, and otherwise one that
  holds the fresh scores.
\<close>

lemma entry_after_poll:
  assumes "homeTeam m \<in> fst ` set (trackedTeams w) \<or> awayTeam m \<in> fst ` set (trackedTeams w)"
  shows "if entry_evicted now m
         then matchCache (snd (poll (\<lambda>highPriority. Inr [m]) now w)) (match_id m) = None
         else (\<exists>c'. matchCache (snd (poll (\<lambda>highPriority. Inr [m]) now w)) (match_id m) = Some c'
                 \<and> homeScore c' = freshScore Home m \<and> awayScore c' = freshScore Away m)"
proof -
  obtain c' where c': "snd (processMatchUpdate (trackedTeams w) m (matchCache w)) (match_id m) = Some c'"
      "homeScore c' = freshScore Home m" "awayScore c' = freshScore Away m"
      "cached_status c' = status m" "cached_utcDate c' = utcDate m"
    using processMatchUpdate_entry [of "trackedTeams w" m "matchCache w"] by blast
  show ?thesis
    using c' by (simp add: poll_relevant(3) [OF assms] entry_evicted_def)
qed

lemma goals_counted:
  assumes "\<forall>(now, m) \<in> set cycles.
             match_id m = i \<and> homeTeam m = h \<and> awayTeam m = a \<and> \<not> entry_evicted now m"
    and "h \<noteq> a"
    and "matchCache w i = Some c"
    and "h \<in> fst ` set (trackedTeams w) \<or> a \<in> fst ` set (trackedTeams w)"
  shows "length (events_to TEAM_SCORED (case s of Home \<Rightarrow> h | Away \<Rightarrow> a)
                   (poll_cycles w cycles)) =
           (if (case s of Home \<Rightarrow> h | Away \<Rightarrow> a) \<in> fst ` set (trackedTeams w)
            then strict_increases s (cachedScore s c) (map snd cycles) else 0)
       \<and> length (events_to TEAM_CONCEDED (case s of Home \<Rightarrow> a | Away \<Rightarrow> h)
                   (poll_cycles w cycles)) =
           (if (case s of Home \<Rightarrow> a | Away \<Rightarrow> h) \<in> fst ` set (trackedTeams w)
            then strict_increases s (cachedScore s c) (map snd cycles) else 0)"
  using assms
proof (induction cycles arbitrary: w c)
  case Nil
  then show ?case by (simp add: events_to_Nil)
next
  case (Cons x cycles)
  obtain now m where x: "x = (now, m)"
    by (cases x)
  define w1 where "w1 = snd (poll (\<lambda>highPriority. Inr [m]) now w)"
  have m: "match_id m = i" "homeTeam m = h" "awayTeam m = a" "\<not> entry_evicted now m"
    using Cons.prems(1) x by auto
  have team: "sideTeam s m = (case s of Home \<Rightarrow> h | Away \<Rightarrow> a)"
    "sideTeam (otherSide s) m = (case s of Home \<Rightarrow> a | Away \<Rightarrow> h)"
    using m by (cases s; simp)+
  have cached: "matchCache w (match_id m) = Some c" and ne: "homeTeam m \<noteq> awayTeam m"
    and rel: "homeTeam m \<in> fst ` set (trackedTeams w) \<or> awayTeam m \<in> fst ` set (trackedTeams w)"
    using Cons.prems m by auto
  have same: "trackedTeams w1 = trackedTeams w"
    by (simp add: w1_def poll_relevant(2) [OF rel])
  obtain c' where c': "matchCache w1 i = Some c'"
      "homeScore c' = freshScore Home m" "awayScore c' = freshScore Away m"
    using entry_after_poll [OF rel, of now] m by (auto simp: w1_def)
  then have next_score: "cachedScore s c' = freshScore s m"
    by (cases s) auto
  have rest: "\<forall>(now, m) \<in> set cycles.
      match_id m = i \<and> homeTeam m = h \<and> awayTeam m = a \<and> \<not> entry_evicted now m"
    using Cons.prems(1) by simp
  have rel1: "h \<in> fst ` set (trackedTeams w1) \<or> a \<in> fst ` set (trackedTeams w1)"
    using Cons.prems(4) same by simp
  note ih = Cons.IH [of w1 c', OF rest Cons.prems(2) c'(1) rel1, unfolded next_score same]
  have scored: "length (events_to TEAM_SCORED (sideTeam s m)
        (fst (poll (\<lambda>highPriority. Inr [m]) now w))) =
      (if status m \<in> set LIVE_STATUSES \<and> cachedScore s c < freshScore s m
          \<and> sideTeam s m \<in> fst ` set (trackedTeams w) then 1 else 0)"
    by (simp add: poll_relevant(1) [OF rel] events_to_append events_to_checkMatchStartsSoon
        scored_in_cycle [of "matchCache w" m c s "trackedTeams w", OF cached ne] emitForTeam_def
        del: checkMatchStartsSoon.simps)
  have conceded: "length (events_to TEAM_CONCEDED (sideTeam (otherSide s) m)
        (fst (poll (\<lambda>highPriority. Inr [m]) now w))) =
      (if status m \<in> set LIVE_STATUSES \<and> cachedScore s c < freshScore s m
          \<and> sideTeam (otherSide s) m \<in> fst ` set (trackedTeams w) then 1 else 0)"
    by (simp add: poll_relevant(1) [OF rel] events_to_append events_to_checkMatchStartsSoon
        conceded_in_cycle [of "matchCache w" m c s "trackedTeams w", OF cached ne] emitForTeam_def
        del: checkMatchStartsSoon.simps)
  note here_s = scored [unfolded team]
  note here_c = conceded [unfolded team]
  show ?case
    using ih here_s here_c
    by (simp add: x poll_cycles_Cons events_to_append w1_def del: poll_cycles.simps)
qed

text \<open>
  Claim C4, as stated, fails twice. A goal first seen on the cycle that reports the match
  FINISHED is never announced: the cache holds 1-0 in play, the fresh snapshot is FINISHED
  at 2-0, and no team_scored event is emitted. And a team_conceded event goes out only
  if the other side is tracked: with team 10 tracked and team 11 not, the goal from 0-0
  to 1-0 is announced to team 10 and to nobody else.
\<close>

theorem goal_with_final_whistle_not_announced:
  "events_to TEAM_SCORED 10
     (poll_cycles live_manager
        [(3000000, example_match 7 IN_PLAY 0 10 11 1 0),
         (6600000, example_match 7 FINISHED 0 10 11 2 0)]) = []
   \<and> map (\<lambda>e. (ev_name e, ev_teamId e))
       (poll_cycles live_manager
          [(600000, example_match 7 IN_PLAY 0 10 11 0 0),
           (1200000, example_match 7 IN_PLAY 0 10 11 1 0)])
     = [(MATCH_KICKOFF, 10), (TEAM_SCORED, 10), (MATCH_RESULT_CHANGED, 10)]"
  by (simp add: live_manager_def poll_def eval_defs events_to_def Let_def)

text \<open>
  Claim C4, amended. Take successive whole poll cycles whose feed holds the snapshots of
  one match, first seen with \<open>m0\<close>, none of them a snapshot whose cache entry the cycle
  evicts (a completed status with kickoff more than four hours before the clock). For a
  side whose team is tracked, the number of team_scored events emitted to it equals the
  number of later snapshots whose status is IN_PLAY or PAUSED and in which that side's
  score is strictly above the cached one, that is, above its score in the snapshot
  before; on exactly those cycles one team_conceded event goes to the other side if its
  team is tracked. Nothing goes to an untracked team.
\<close>

theorem scored_events_count_live_increases:
  assumes "matchCache w (match_id m0) = None"
    and "\<forall>(now, m) \<in> set cycles.
           match_id m = match_id m0 \<and> homeTeam m = homeTeam m0 \<and> awayTeam m = awayTeam m0
           \<and> \<not> entry_evicted now m"
    and "homeTeam m0 \<noteq> awayTeam m0"
    and "\<not> entry_evicted now0 m0"
  shows "length (events_to TEAM_SCORED (sideTeam s m0)
                   (poll_cycles w ((now0, m0) # cycles))) =
           (if sideTeam s m0 \<in> fst ` set (trackedTeams w)
            then strict_increases s (freshScore s m0) (map snd cycles) else 0)
       \<and> length (events_to TEAM_CONCEDED (sideTeam (otherSide s) m0)
                   (poll_cycles w ((now0, m0) # cycles))) =
           (if sideTeam (otherSide s) m0 \<in> fst ` set (trackedTeams w)
            then strict_increases s (freshScore s m0) (map snd cycles) else 0)"
proof (cases "homeTeam m0 \<in> fst ` set (trackedTeams w) \<or> awayTeam m0 \<in> fst ` set (trackedTeams w)")
  case False
  have teams: "\<forall>(now, m) \<in> set ((now0, m0) # cycles).
      homeTeam m = homeTeam m0 \<and> awayTeam m = awayTeam m0"
    using assms(2) by auto
  have none: "poll_cycles w ((now0, m0) # cycles) = []"
    using poll_cycles_irrelevant [OF teams] False by blast
  have "sideTeam s m0 \<notin> fst ` set (trackedTeams w)"
    "sideTeam (otherSide s) m0 \<notin> fst ` set (trackedTeams w)"
    using False by (cases s; simp)+
  then show ?thesis
    by (simp add: none events_to_Nil del: poll_cycles.simps)
next
  case True
  define w1 where "w1 = snd (poll (\<lambda>highPriority. Inr [m0]) now0 w)"
  have same: "trackedTeams w1 = trackedTeams w"
    by (simp add: w1_def poll_relevant(2) [OF True])
  obtain c' where c': "matchCache w1 (match_id m0) = Some c'"
      "homeScore c' = freshScore Home m0" "awayScore c' = freshScore Away m0"
    using entry_after_poll [OF True, of now0] assms(4) by (auto simp: w1_def)
  then have first_score: "cachedScore s c' = freshScore s m0"
    by (cases s) auto
  have new_names: "events_to n t (fst (processMatchUpdate (trackedTeams w) m0 (matchCache w))) = []"
    if "n \<in> {TEAM_SCORED, TEAM_CONCEDED}" for n t
  proof (rule events_to_none)
    fix ev
    assume "ev \<in> set (fst (processMatchUpdate (trackedTeams w) m0 (matchCache w)))"
    then have "ev_name ev \<in> {MATCH_KICKOFF, HALFTIME_STARTED, MATCH_FINISHED, TEAM_WON,
        TEAM_LOST, TEAM_DREW}"
      using processMatchUpdate_new_names [of "matchCache w" m0 ev "trackedTeams w"] assms(1)
      by blast
    then show "ev_name ev \<noteq> n"
      using that by auto
  qed
  have first: "events_to n t (fst (poll (\<lambda>highPriority. Inr [m0]) now0 w)) = []"
    if "n \<in> {TEAM_SCORED, TEAM_CONCEDED}" for n t
    using that new_names [OF that, of t]
    by (auto simp: poll_relevant(1) [OF True] events_to_append events_to_checkMatchStartsSoon
        simp del: checkMatchStartsSoon.simps)
  have team: "sideTeam s m0 = (case s of Home \<Rightarrow> homeTeam m0 | Away \<Rightarrow> awayTeam m0)"
    "sideTeam (otherSide s) m0 = (case s of Home \<Rightarrow> awayTeam m0 | Away \<Rightarrow> homeTeam m0)"
    by (cases s; simp)+
  have rel1: "homeTeam m0 \<in> fst ` set (trackedTeams w1) \<or> awayTeam m0 \<in> fst ` set (trackedTeams w1)"
    using True same by simp
  show ?thesis
    using goals_counted [of cycles "match_id m0" "homeTeam m0" "awayTeam m0" w1 c' s,
        OF assms(2) assms(3) c'(1) rel1, unfolded first_score same]
    by (simp add: poll_cycles_Cons events_to_append first team w1_def del: poll_cycles.simps)
qed

theorem scored_events_count_live_increases_witness:
  "length (events_to TEAM_SCORED 10
      (poll_cycles live_manager ((600000, example_match 7 IN_PLAY 0 10 11 0 0) # goal_cycles))) = 2
   \<and> length (events_to TEAM_CONCEDED 11
      (poll_cycles live_manager ((600000, example_match 7 IN_PLAY 0 10 11 0 0) # goal_cycles))) = 0
   \<and> strict_increases Home 0 (map snd goal_cycles) = 2"
proof -
  have a: "matchCache live_manager (match_id (example_match 7 IN_PLAY 0 10 11 0 0)) = None"
    by (simp add: live_manager_def new_manager_def)
  have b: "\<forall>(now, m) \<in> set goal_cycles.
      match_id m = match_id (example_match 7 IN_PLAY 0 10 11 0 0)
      \<and> homeTeam m = homeTeam (example_match 7 IN_PLAY 0 10 11 0 0)
      \<and> awayTeam m = awayTeam (example_match 7 IN_PLAY 0 10 11 0 0)
      \<and> \<not> entry_evicted now m"
    by (simp add: goal_cycles_def example_match_def entry_evicted_def COMPLETED_STATUSES_def)
  have c: "homeTeam (example_match 7 IN_PLAY 0 10 11 0 0)
      \<noteq> awayTeam (example_match 7 IN_PLAY 0 10 11 0 0)"
    by (simp add: example_match_def)
  have d: "\<not> entry_evicted 600000 (example_match 7 IN_PLAY 0 10 11 0 0)"
    by (simp add: example_match_def entry_evicted_def COMPLETED_STATUSES_def)
  show ?thesis
    using scored_events_count_live_increases [OF a b c d, of Home]
    by (simp add: goal_cycles_def example_match_def currentScore_def LIVE_STATUSES_def
        live_manager_def new_manager_def del: poll_cycles.simps)
qed

text \<open>
  The cycles of the statement above are those that keep the match's entry. After a cycle
  that evicts it the match is taken for a new one: seen in play at 0-0, then FINISHED at
  1-0 five hours after kickoff, then in play again at 2-0, it gets a second kickoff
  event and no team_scored event.
\<close>

lemma goal_after_eviction_not_announced:
  "map (\<lambda>e. (ev_name e, ev_teamId e))
     (poll_cycles live_manager
        [(6000000, example_match 7 IN_PLAY 0 10 11 0 0),
         (18000000, example_match 7 FINISHED 0 10 11 1 0),
         (18900000, example_match 7 IN_PLAY 0 10 11 2 0)])
     = [(MATCH_KICKOFF, 10), (MATCH_FINISHED, 10), (TEAM_WON, 10), (MATCH_KICKOFF, 10)]"
  by (simp add: live_manager_def poll_def eval_defs Let_def)

section \<open>Starts-soon thresholds over the cycles of a match\<close>

lemma firing_distinct_eq:
  "distinct ths \<Longrightarrow>
     firing mu fired ths = filter (\<lambda>th. mu \<le> of_nat th \<and> mu > 0 \<and> th \<notin> set fired) ths"
proof (induction ths arbitrary: fired)
  case Nil
  then show ?case by simp
next
  case (Cons th ths)
  have same: "filter (\<lambda>x. mu \<le> of_nat x \<and> mu > 0 \<and> x \<notin> set (fired @ [th])) ths
      = filter (\<lambda>x. mu \<le> of_nat x \<and> mu > 0 \<and> x \<notin> set fired) ths"
    using Cons.prems by (intro filter_cong) auto
  show ?case
    using Cons.prems Cons.IH [of "fired @ [th]"] Cons.IH [of fired] same by simp
qed

lemma distinct_thresholds: "distinct MATCH_SOON_THRESHOLDS"
  by (simp add: MATCH_SOON_THRESHOLDS_def)

lemma firing_iff:
  "th \<in> set (firing mu fired MATCH_SOON_THRESHOLDS) \<longleftrightarrow>
     th \<in> set MATCH_SOON_THRESHOLDS \<and> mu \<le> of_nat th \<and> mu > 0 \<and> th \<notin> set fired"
  by (auto simp: firing_distinct_eq [OF distinct_thresholds])

lemma distinct_firing: "distinct (firing mu fired MATCH_SOON_THRESHOLDS)"
  by (simp add: firing_distinct_eq [OF distinct_thresholds] distinct_thresholds)

lemma soon_thresholds_soon_events:
  assumes "homeTeam m \<noteq> awayTeam m" and "t = homeTeam m \<or> t = awayTeam m"
    and "t \<in> fst ` set tracked"
  shows "soon_thresholds t (soon_events tracked m ths) = ths"
  using assms
  by (induction ths)
     (auto simp: soon_thresholds_def soon_events_def events_to_def emitForTeams_def
        emitForTeam_def)

lemma checkMatchStartsSoon_single:
  "checkMatchStartsSoon tracked now [m] triggered =
     (if status m \<notin> set UPCOMING_STATUSES then ([], triggered)
      else checkThresholds tracked m (minutesUntil now m) MATCH_SOON_THRESHOLDS triggered)"
  by (simp add: split_def Let_def minutesUntil_def)

text \<open>The thresholds one cycle fires to a tracked side of an upcoming match.\<close>

lemma fired_in_cycle:
  assumes "homeTeam m \<noteq> awayTeam m" and "t = homeTeam m \<or> t = awayTeam m"
    and "t \<in> fst ` set tracked"
  shows "soon_thresholds t (fst (checkMatchStartsSoon tracked now [m] triggered)) =
     (if status m \<in> set UPCOMING_STATUSES
      then firing (minutesUntil now m) (firedFor triggered (match_id m)) MATCH_SOON_THRESHOLDS
      else [])"
  using soon_thresholds_soon_events [OF assms]
  by (simp add: checkMatchStartsSoon_single checkThresholds_eq
      del: checkMatchStartsSoon.simps)
     (simp add: soon_thresholds_def events_to_def)

lemma record_after_cycle:
  "firedFor (\<lambda>matchId. if matchId \<in> set (map match_id [m])
                         then snd (checkMatchStartsSoon tracked now [m] triggered) matchId
                         else None) (match_id m) =
     firedFor triggered (match_id m)
       @ (if status m \<in> set UPCOMING_STATUSES
          then firing (minutesUntil now m) (firedFor triggered (match_id m)) MATCH_SOON_THRESHOLDS
          else [])"
proof -
  have "firedFor (\<lambda>matchId. if matchId \<in> set (map match_id [m])
                         then snd (checkMatchStartsSoon tracked now [m] triggered) matchId
                         else None) (match_id m)
      = firedFor (snd (checkMatchStartsSoon tracked now [m] triggered)) (match_id m)"
    by (simp add: firedFor_def del: checkMatchStartsSoon.simps)
  then show ?thesis
    by (simp add: checkMatchStartsSoon_single checkThresholds_same
        del: checkMatchStartsSoon.simps)
qed

lemma soon_seq_Cons:
  "soon_seq tracked t triggered ((now, m) # cycles) =
     soon_thresholds t (fst (checkMatchStartsSoon tracked now [m] triggered))
       # soon_seq tracked t
           (\<lambda>matchId. if matchId \<in> set (map match_id [m])
                        then snd (checkMatchStartsSoon tracked now [m] triggered) matchId
                        else None) cycles"
  by (simp add: split_def Let_def del: checkMatchStartsSoon.simps)

lemma soon_seq_props:
  assumes "\<forall>(now, m) \<in> set cycles. match_id m = i \<and> homeTeam m = h \<and> awayTeam m = a"
    and "h \<noteq> a" and "t = h \<or> t = a" and "t \<in> fst ` set tracked"
  shows "set (concat (soon_seq tracked t triggered cycles))
           \<subseteq> set MATCH_SOON_THRESHOLDS - set (firedFor triggered i)
       \<and> distinct (concat (soon_seq tracked t triggered cycles))
       \<and> later_smaller (soon_seq tracked t triggered cycles)"
  using assms(1)
proof (induction cycles arbitrary: triggered)
  case Nil
  then show ?case by simp
next
  case (Cons cyc cycles)
  obtain now m where cyc: "cyc = (now, m)"
    by (cases cyc)
  have m: "match_id m = i" "homeTeam m = h" "awayTeam m = a"
    using Cons.prems cyc by auto
  define R where "R = firedFor triggered i"
  define mu where "mu = minutesUntil now m"
  define F where "F = (if status m \<in> set UPCOMING_STATUSES
      then firing mu R MATCH_SOON_THRESHOLDS else [])"
  define tr' where "tr' = (\<lambda>matchId. if matchId \<in> set (map match_id [m])
      then snd (checkMatchStartsSoon tracked now [m] triggered) matchId else None)"
  have here: "soon_thresholds t (fst (checkMatchStartsSoon tracked now [m] triggered)) = F"
    using fired_in_cycle [of m t tracked now triggered] assms(2-4) m
    by (simp add: F_def R_def mu_def)
  have rec: "firedFor tr' i = R @ F"
    using record_after_cycle [of m tracked now triggered] m
    by (simp add: tr'_def F_def R_def mu_def)
  have rest: "\<forall>(now, m) \<in> set cycles. match_id m = i \<and> homeTeam m = h \<and> awayTeam m = a"
    using Cons.prems by simp
  note ih = Cons.IH [OF rest, of tr', unfolded rec]
  have seq: "soon_seq tracked t triggered (cyc # cycles) = F # soon_seq tracked t tr' cycles"
    by (simp only: cyc soon_seq_Cons here tr'_def)
  have F_sub: "set F \<subseteq> set MATCH_SOON_THRESHOLDS - set R"
    by (auto simp: F_def firing_iff)
  have F_dist: "distinct F"
    by (simp add: F_def distinct_firing)
  have smaller: "y < x" if "x \<in> set F" and "y \<in> set (concat (soon_seq tracked t tr' cycles))" for x y
  proof -
    have up: "status m \<in> set UPCOMING_STATUSES" and x: "mu \<le> of_nat x" "mu > 0"
      using that(1) by (auto simp: F_def firing_iff split: if_splits)
    have y: "y \<in> set MATCH_SOON_THRESHOLDS" "y \<notin> set R" "y \<notin> set F"
      using that(2) ih by auto
    then have "\<not> mu \<le> of_nat y"
      using up x(2) by (auto simp: F_def firing_iff)
    then have "(of_nat y :: rat) < of_nat x"
      using x(1) by linarith
    then show ?thesis by simp
  qed
  show ?case
    unfolding seq R_def [symmetric]
    using ih F_sub F_dist smaller by auto
qed

text \<open>
  Claim C8. The claim: each pair of match and threshold fires at most once. The record
  of fired thresholds is there to ensure it, and \<open>cleanupOldMatches\<close> is to drop the
  record of a match that is no longer in today's list. It is handed the relevant matches,
  though, those of the teams tracked in that cycle, so the record of a match that is
  still in today's feed is dropped as well when neither of its teams is tracked for a
  cycle. In the run below the 120-minute threshold fires for match 7 on the first cycle.
  Team 10's device then unregisters while team 20 stays tracked; the next cycle's feed
  holds match 7, its relevant matches do not, and the record of match 7 is dropped. The
  device registers again, and the next cycle fires the 120-minute threshold a second
  time.
\<close>

theorem threshold_fires_again_after_eviction:
  "map (\<lambda>e. (ev_name e, ev_teamId e, match_id (ev_match e), ev_data e))
       (fst (run resubscribe_cycles new_manager)) =
     [(MATCH_STARTS_SOON, 10, 7, Minutes 120), (MATCH_STARTS_SOON, 10, 7, Minutes 120)]"
  by (simp add: resubscribe_cycles_def eval_defs Let_def)

text \<open>
  With the other side of the match tracked in place of team 20, the same steps keep the
  match among the relevant ones, its record stays, and the threshold fires once.
\<close>

lemma threshold_latched_while_opponent_tracked:
  "map (\<lambda>e. (ev_name e, ev_teamId e, match_id (ev_match e), ev_data e))
       (fst (run resubscribe_opponent_tracked new_manager)) =
     [(MATCH_STARTS_SOON, 10, 7, Minutes 120), (MATCH_STARTS_SOON, 11, 7, Minutes 120)]"
  by (simp add: resubscribe_opponent_tracked_def eval_defs Let_def)

text \<open>
  The latch while the record is kept. Let \<open>t\<close> be a tracked side of a match. On a cycle
  on which the match is in an upcoming status, a match_starts_soon event carrying a
  threshold \<open>T\<close> of the configured list is emitted to \<open>t\<close> exactly when the minutes until
  kickoff lie in \<open>(0, T]\<close> and \<open>T\<close> is not in the match's record of fired thresholds. Over
  successive cycles that each have the match among the relevant ones, each threshold
  fires at most once, none that was in the record at the start fires, and every threshold
  fired on a later cycle is smaller than every threshold fired on an earlier one.
\<close>

theorem starts_soon_once_and_decreasing:
  assumes "\<forall>(now, m) \<in> set cycles. match_id m = i \<and> homeTeam m = h \<and> awayTeam m = a"
    and "h \<noteq> a" and "t = h \<or> t = a" and "t \<in> fst ` set tracked"
  shows "(status m \<in> set UPCOMING_STATUSES \<and> homeTeam m = h \<and> awayTeam m = a
            \<and> T \<in> set MATCH_SOON_THRESHOLDS \<longrightarrow>
          (T \<in> set (soon_thresholds t (fst (checkMatchStartsSoon tracked now [m] triggered0)))
             \<longleftrightarrow> 0 < minutesUntil now m \<and> minutesUntil now m \<le> of_nat T
                  \<and> T \<notin> set (firedFor triggered0 (match_id m))))
    \<and> distinct (concat (soon_seq tracked t triggered cycles))
    \<and> set (concat (soon_seq tracked t triggered cycles)) \<inter> set (firedFor triggered i) = {}
    \<and> later_smaller (soon_seq tracked t triggered cycles)"
proof -
  have one: "T \<in> set (soon_thresholds t (fst (checkMatchStartsSoon tracked now [m] triggered0)))
      \<longleftrightarrow> 0 < minutesUntil now m \<and> minutesUntil now m \<le> of_nat T
            \<and> T \<notin> set (firedFor triggered0 (match_id m))"
    if "status m \<in> set UPCOMING_STATUSES" "homeTeam m = h" "awayTeam m = a"
       "T \<in> set MATCH_SOON_THRESHOLDS"
    using that assms(2-4) fired_in_cycle [of m t tracked now triggered0]
    by (auto simp: firing_iff)
  show ?thesis
    using one soon_seq_props [OF assms, of triggered] by blast
qed

theorem starts_soon_once_and_decreasing_witness:
  "soon_seq [(10, [1])] 10 Map.empty countdown_cycles = [[], [120], [60], [], [15, 30], []]
   \<and> distinct (concat (soon_seq [(10, [1])] 10 Map.empty countdown_cycles))
   \<and> later_smaller (soon_seq [(10, [1])] 10 Map.empty countdown_cycles)
   \<and> 30 \<in> set (soon_thresholds 10 (fst (checkMatchStartsSoon [(10, [1])] 6600000
             [example_match 7 TIMED 7200000 10 11 0 0] [7 \<mapsto> [120, 60]])))
   \<and> 60 \<notin> set (soon_thresholds 10 (fst (checkMatchStartsSoon [(10, [1])] 6600000
             [example_match 7 TIMED 7200000 10 11 0 0] [7 \<mapsto> [120, 60]])))"
proof -
  have a: "\<forall>(now, m) \<in> set countdown_cycles. match_id m = 7 \<and> homeTeam m = 10 \<and> awayTeam m = 11"
    by (simp add: countdown_cycles_def example_match_def)
  have b: "(10::nat) \<noteq> 11" "(10::nat) = 10 \<or> (10::nat) = 11" "(10::nat) \<in> fst ` set [(10, [1::nat])]"
    by simp_all
  have seq: "soon_seq [(10, [1])] 10 Map.empty countdown_cycles = [[], [120], [60], [], [15, 30], []]"
    by (simp add: countdown_cycles_def example_match_def soon_thresholds_def events_to_def
        emitForTeams_def emitForTeam_def UPCOMING_STATUSES_def MATCH_SOON_THRESHOLDS_def)
  show ?thesis
    using starts_soon_once_and_decreasing [OF a b, where
        m = "example_match 7 TIMED 7200000 10 11 0 0" and T = 30 and now = 6600000
        and ?triggered0.0 = "[7 \<mapsto> [120, 60]]" and triggered = Map.empty] seq
    by (simp add: example_match_def soon_thresholds_def events_to_def
        emitForTeams_def emitForTeam_def UPCOMING_STATUSES_def MATCH_SOON_THRESHOLDS_def
        minutesUntil_def firedFor_def)
qed

section \<open>The sliding window of the client\<close>

lemma length_filter_mono:
  "(\<And>x. x \<in> set xs \<Longrightarrow> P x \<Longrightarrow> Q x) \<Longrightarrow> length (filter P xs) \<le> length (filter Q xs)"
  by (induction xs) auto

lemma filter_window_later:
  "c \<le> t \<Longrightarrow>
     filter (\<lambda>x. t - 60000 < x) (filter (\<lambda>x. c - 60000 < x) xs) = filter (\<lambda>x. t - 60000 < x) (xs :: int list)"
  by (induction xs) auto

lemma window_sync_later:
  assumes "c \<le> t"
    and "filter (\<lambda>x. c - 60000 < x) (map fst sent) = filter (\<lambda>x. c - 60000 < x) ts"
  shows "filter (\<lambda>x. t - 60000 < x) (map fst sent) = filter (\<lambda>x. t - 60000 < (x::int)) ts"
proof -
  have "filter (\<lambda>x. t - 60000 < x) (map fst sent)
      = filter (\<lambda>x. t - 60000 < x) (filter (\<lambda>x. c - 60000 < x) (map fst sent))"
    using assms(1) by (simp only: filter_window_later)
  also have "\<dots> = filter (\<lambda>x. t - 60000 < x) (filter (\<lambda>x. c - 60000 < x) ts)"
    by (simp only: assms(2))
  also have "\<dots> = filter (\<lambda>x. t - 60000 < x) ts"
    using assms(1) by (simp only: filter_window_later)
  finally show ?thesis .
qed

lemma limit_values:
  "RATE_LIMIT = 10" "RATE_LIMIT - RATE_LIMIT_BUFFER = 8"
  by (simp_all add: RATE_LIMIT_def RATE_LIMIT_BUFFER_def)

lemma in_window_append:
  "in_window T (sent @ [r]) = in_window T sent @ (if T - 60000 < fst r \<and> fst r \<le> T then [r] else [])"
  by (simp add: in_window_def)

lemma normal_in_window_le: "length (normal_in_window T sent) \<le> length (in_window T sent)"
  by (simp add: normal_in_window_def)

text \<open>
  With every request sent so far no later than \<open>c\<close>, the requests of a window that ends
  at or after \<open>t \<ge> c\<close> are among those the client still holds after cleaning at \<open>t\<close>.
\<close>

lemma in_window_bound:
  assumes "c \<le> t" and "t \<le> T"
    and "filter (\<lambda>x. c - 60000 < x) (map fst sent) = filter (\<lambda>x. c - 60000 < x) ts"
  shows "length (in_window T sent) \<le> length (filter (\<lambda>x. t - 60000 < x) ts)"
proof -
  have "length (in_window T sent) \<le> length (filter (\<lambda>r. t - 60000 < fst r) sent)"
    unfolding in_window_def using assms(2) by (intro length_filter_mono) auto
  also have "\<dots> = length (filter (\<lambda>x. t - 60000 < x) (map fst sent))"
    by (simp add: filter_map comp_def)
  also have "\<dots> = length (filter (\<lambda>x. t - 60000 < x) ts)"
    using window_sync_later [OF assms(1) assms(3)] by simp
  finally show ?thesis .
qed

lemma attempt_keeps:
  assumes "c \<le> t" and "t \<le> t'"
    and old: "\<forall>r \<in> set sent. fst r \<le> c"
    and sync: "filter (\<lambda>x. c - 60000 < x) (map fst sent)
               = filter (\<lambda>x. c - 60000 < x) (requestTimestamps api)"
    and bound: "\<forall>T. length (in_window T sent) \<le> RATE_LIMIT
                  \<and> length (normal_in_window T sent) \<le> RATE_LIMIT - RATE_LIMIT_BUFFER"
    and step: "api_step (Attempt highPriority t t') (api, sent) = (api', sent')"
  shows "(\<forall>r \<in> set sent'. fst r \<le> t')
    \<and> filter (\<lambda>x. t' - 60000 < x) (map fst sent')
        = filter (\<lambda>x. t' - 60000 < x) (requestTimestamps api')
    \<and> (\<forall>T. length (in_window T sent') \<le> RATE_LIMIT
           \<and> length (normal_in_window T sent') \<le> RATE_LIMIT - RATE_LIMIT_BUFFER)"
proof (cases "fst (canMakeRequest highPriority t api)")
  case False
  then have eq: "sent' = sent"
      "requestTimestamps api' = filter (\<lambda>x. t - 60000 < x) (requestTimestamps api)"
    using step by (auto simp: canMakeRequest_def cleanExpiredTimestamps_def Let_def)
  have "filter (\<lambda>x. t' - 60000 < x) (map fst sent)
      = filter (\<lambda>x. t' - 60000 < x) (requestTimestamps api)"
    using window_sync_later [OF _ sync, of t'] assms(1,2) by simp
  then have "filter (\<lambda>x. t' - 60000 < x) (map fst sent')
      = filter (\<lambda>x. t' - 60000 < x) (requestTimestamps api')"
    using filter_window_later [OF assms(2), of "requestTimestamps api"] by (simp add: eq)
  then show ?thesis
    using old bound assms(1,2) by (auto simp: eq)
next
  case True
  define limit where "limit = (if highPriority then RATE_LIMIT else RATE_LIMIT - RATE_LIMIT_BUFFER)"
  have room: "length (filter (\<lambda>x. t - 60000 < x) (requestTimestamps api)) < limit"
    using True by (simp add: canMakeRequest_def cleanExpiredTimestamps_def Let_def limit_def)
  have eq: "sent' = sent @ [(t', highPriority)]"
      "requestTimestamps api' = filter (\<lambda>x. t - 60000 < x) (requestTimestamps api) @ [t']"
    using True step by (auto simp: canMakeRequest_def cleanExpiredTimestamps_def Let_def)
  have older: "\<forall>r \<in> set sent'. fst r \<le> t'"
    using old assms(1,2) by (auto simp: eq)
  have "filter (\<lambda>x. t' - 60000 < x) (map fst sent)
      = filter (\<lambda>x. t' - 60000 < x) (requestTimestamps api)"
    using window_sync_later [OF _ sync, of t'] assms(1,2) by simp
  then have sync': "filter (\<lambda>x. t' - 60000 < x) (map fst sent')
      = filter (\<lambda>x. t' - 60000 < x) (requestTimestamps api')"
    using filter_window_later [OF assms(2), of "requestTimestamps api"] by (simp add: eq)
  have bound': "length (in_window T sent') \<le> RATE_LIMIT
      \<and> length (normal_in_window T sent') \<le> RATE_LIMIT - RATE_LIMIT_BUFFER" for T
  proof (cases "t' \<le> T")
    case False
    then have "in_window T sent' = in_window T sent"
      by (simp add: eq in_window_append)
    then show ?thesis
      using bound by (simp add: normal_in_window_def)
  next
    case late: True
    have "length (in_window T sent) \<le> length (filter (\<lambda>x. t - 60000 < x) (requestTimestamps api))"
      using in_window_bound [OF assms(1) _ sync, of T] assms(2) late by simp
    then have total: "length (in_window T sent') \<le> limit"
      using room by (simp add: eq in_window_append)
    show ?thesis
    proof (cases highPriority)
      case True
      then have "normal_in_window T sent' = normal_in_window T sent"
        by (simp add: eq in_window_append normal_in_window_def)
      then show ?thesis
        using total bound True by (simp add: limit_def)
    next
      case False
      then show ?thesis
        using total normal_in_window_le [of T sent'] by (simp add: limit_def limit_values)
    qed
  qed
  show ?thesis
    using older sync' bound' by blast
qed

lemma wake_keeps:
  assumes "c \<le> t"
    and old: "\<forall>r \<in> set sent. fst r \<le> c"
    and sync: "filter (\<lambda>x. c - 60000 < x) (map fst sent)
               = filter (\<lambda>x. c - 60000 < x) (requestTimestamps api)"
    and step: "api_step (Wake t) (api, sent) = (api', sent')"
  shows "(\<forall>r \<in> set sent'. fst r \<le> t)
    \<and> filter (\<lambda>x. t - 60000 < x) (map fst sent')
        = filter (\<lambda>x. t - 60000 < x) (requestTimestamps api')
    \<and> sent' = sent"
proof -
  have eq: "sent' = sent"
      "requestTimestamps api' = filter (\<lambda>x. t - 60000 < x) (requestTimestamps api)"
    using step by (auto simp: cleanExpiredTimestamps_def Let_def)
  have "filter (\<lambda>x. t - 60000 < x) (map fst sent)
      = filter (\<lambda>x. t - 60000 < x) (requestTimestamps api)"
    using window_sync_later [OF assms(1) sync] by simp
  then show ?thesis
    using old assms(1) by (auto simp: eq)
qed

lemma api_run_keeps:
  assumes "sorted (c # concat (map clock_readings es))"
    and "\<forall>r \<in> set sent. fst r \<le> c"
    and "filter (\<lambda>x. c - 60000 < x) (map fst sent)
         = filter (\<lambda>x. c - 60000 < x) (requestTimestamps api)"
    and "\<forall>T. length (in_window T sent) \<le> RATE_LIMIT
            \<and> length (normal_in_window T sent) \<le> RATE_LIMIT - RATE_LIMIT_BUFFER"
  shows "\<forall>T. length (in_window T (snd (api_run es (api, sent)))) \<le> RATE_LIMIT
            \<and> length (normal_in_window T (snd (api_run es (api, sent))))
                \<le> RATE_LIMIT - RATE_LIMIT_BUFFER"
  using assms
proof (induction es arbitrary: c api sent)
  case Nil
  then show ?case by simp
next
  case (Cons e es)
  obtain api' sent' where step: "api_step e (api, sent) = (api', sent')"
    by (cases "api_step e (api, sent)")
  show ?case
  proof (cases e)
    case (Attempt highPriority t t')
    have ord: "c \<le> t" "t \<le> t'" "sorted (t' # concat (map clock_readings es))"
      using Cons.prems(1) by (auto simp: Attempt)
    note keep = attempt_keeps [OF ord(1,2) Cons.prems(2,3,4) step [unfolded Attempt]]
    have k1: "\<forall>r \<in> set sent'. fst r \<le> t'"
      and k2: "filter (\<lambda>x. t' - 60000 < x) (map fst sent')
               = filter (\<lambda>x. t' - 60000 < x) (requestTimestamps api')"
      and k4: "\<forall>T. length (in_window T sent') \<le> RATE_LIMIT
            \<and> length (normal_in_window T sent') \<le> RATE_LIMIT - RATE_LIMIT_BUFFER"
      using keep by blast+
    show ?thesis
      using Cons.IH [OF ord(3) k1 k2 k4] by (simp add: step)
  next
    case (Wake t)
    have ord: "c \<le> t" "sorted (t # concat (map clock_readings es))"
      using Cons.prems(1) by (auto simp: Wake)
    note keep = wake_keeps [OF ord(1) Cons.prems(2,3) step [unfolded Wake]]
    have k1: "\<forall>r \<in> set sent'. fst r \<le> t"
      and k2: "filter (\<lambda>x. t - 60000 < x) (map fst sent')
               = filter (\<lambda>x. t - 60000 < x) (requestTimestamps api')"
      and k3: "sent' = sent"
      using keep by blast+
    have k4: "\<forall>T. length (in_window T sent') \<le> RATE_LIMIT
            \<and> length (normal_in_window T sent') \<le> RATE_LIMIT - RATE_LIMIT_BUFFER"
      using Cons.prems(4) by (simp add: k3)
    show ?thesis
      using Cons.IH [OF ord(2) k1 k2 k4] by (simp add: step)
  qed
qed

section \<open>The waiting loop\<close>

lemma refused_has_oldest:
  assumes "\<not> fst (canMakeRequest highPriority now api)"
  shows "\<exists>oldest rest. requestTimestamps (snd (canMakeRequest highPriority now api)) = oldest # rest"
proof -
  have "8 \<le> length (requestTimestamps (snd (canMakeRequest highPriority now api)))"
    using assms
    by (auto simp: canMakeRequest_def Let_def RATE_LIMIT_def RATE_LIMIT_BUFFER_def
        split: if_splits)
  then show ?thesis
    by (cases "requestTimestamps (snd (canMakeRequest highPriority now api))") auto
qed

text \<open>One turn of the loop when the caller is refused.\<close>

lemma waitForRateLimit_refused:
  assumes "\<not> fst (canMakeRequest highPriority now api)"
    and "requestTimestamps (snd (canMakeRequest highPriority now api)) = oldest # rest"
  shows "waitForRateLimit highPriority late now api =
           waitForRateLimit highPriority (tl late)
             (oldest + 60100 + (case late of [] \<Rightarrow> 0 | l # ls \<Rightarrow> int l))
             (cleanExpiredTimestamps
                (oldest + 60100 + (case late of [] \<Rightarrow> 0 | l # ls \<Rightarrow> int l))
                (snd (canMakeRequest highPriority now api)))"
    and "now < oldest + 60000"
proof -
  have "oldest \<in> set (requestTimestamps (snd (canMakeRequest highPriority now api)))"
    using assms(2) by simp
  then show young: "now < oldest + 60000"
    by (auto simp: canMakeRequest_def cleanExpiredTimestamps_def Let_def)
  then have pos: "0 < oldest + 60000 - now + 100"
    by simp
  have at: "now + (oldest + 60000 - now + 100) + d = oldest + 60100 + d" for d :: int
    by simp
  show "waitForRateLimit highPriority late now api =
           waitForRateLimit highPriority (tl late)
             (oldest + 60100 + (case late of [] \<Rightarrow> 0 | l # ls \<Rightarrow> int l))
             (cleanExpiredTimestamps
                (oldest + 60100 + (case late of [] \<Rightarrow> 0 | l # ls \<Rightarrow> int l))
                (snd (canMakeRequest highPriority now api)))"
    using young by (subst waitForRateLimit.simps) (auto simp: assms Let_def ac_simps)
qed

lemma waitForRateLimit_allowed:
  "fst (canMakeRequest highPriority now api) \<Longrightarrow>
     waitForRateLimit highPriority late now api =
       Some (now, snd (canMakeRequest highPriority now api))"
  by (subst waitForRateLimit.simps) simp

lemma oldest_leaves_window:
  "oldest \<notin> set (requestTimestamps (cleanExpiredTimestamps (oldest + 60100 + int d) api))"
  by (simp add: cleanExpiredTimestamps_def Let_def)

text \<open>
  The loop returns, and what it did to the client's state is a run of attempts and
  wake-ups with a clock that never goes back, ending with the attempt that succeeds.
\<close>

lemma waitForRateLimit_is_run:
  "\<exists>t api1 es. waitForRateLimit highPriority late now api = Some (t, api1)
     \<and> sorted (now # concat (map clock_readings es))
     \<and> api_run es (api, sent) =
         (api1\<lparr>requestTimestamps := requestTimestamps api1 @ [t]\<rparr>, sent @ [(t, highPriority)])"
proof (induction highPriority late now api rule: waitForRateLimit.induct)
  case (1 highPriority late now api)
  show ?case
  proof (cases "fst (canMakeRequest highPriority now api)")
    case True
    have "api_run [Attempt highPriority now now] (api, sent) =
        ((snd (canMakeRequest highPriority now api))
           \<lparr>requestTimestamps :=
              requestTimestamps (snd (canMakeRequest highPriority now api)) @ [now]\<rparr>,
         sent @ [(now, highPriority)])"
      using True by simp
    moreover have "sorted (now # concat (map clock_readings [Attempt highPriority now now]))"
      by simp
    ultimately show ?thesis
      using waitForRateLimit_allowed [OF True, of late]
      by (intro exI [of _ now] exI [of _ "snd (canMakeRequest highPriority now api)"]
          exI [of _ "[Attempt highPriority now now]"]) simp
  next
    case False
    obtain oldest rest where
      ts: "requestTimestamps (snd (canMakeRequest highPriority now api)) = oldest # rest"
      using refused_has_oldest [OF False] by blast
    define d where "d = (case late of [] \<Rightarrow> 0 | l # ls \<Rightarrow> int l)"
    define now1 where "now1 = oldest + 60100 + d"
    define api2 where "api2 = cleanExpiredTimestamps now1 (snd (canMakeRequest highPriority now api))"
    have d0: "0 \<le> d"
      by (cases late) (simp_all add: d_def)
    have young: "now < oldest + 60000"
      using waitForRateLimit_refused(2) [OF False ts] .
    have unfold: "waitForRateLimit highPriority late now api
        = waitForRateLimit highPriority (tl late) now1 api2"
      using waitForRateLimit_refused(1) [OF False ts, of late]
      by (simp add: now1_def api2_def d_def)
    have pos: "0 < oldest + 60000 - now + 100"
      using young by simp
    have now1_eq: "now1 = (if 0 < oldest + 60000 - now + 100
        then now + (oldest + 60000 - now + 100) + (case late of [] \<Rightarrow> 0 | l # ls \<Rightarrow> int l)
        else now)"
      using pos by (simp add: now1_def d_def)
    obtain t api1 es where rest_run:
      "waitForRateLimit highPriority (tl late) now1 api2 = Some (t, api1)"
      "sorted (now1 # concat (map clock_readings es))"
      "api_run es (api2, sent) =
         (api1\<lparr>requestTimestamps := requestTimestamps api1 @ [t]\<rparr>, sent @ [(t, highPriority)])"
      using "1.IH" [OF False refl ts refl now1_eq, of api2] api2_def by blast
    have later: "now \<le> now1"
      using young d0 by (simp add: now1_def)
    have run: "api_run (Attempt highPriority now now # Wake now1 # es) (api, sent) =
        (api1\<lparr>requestTimestamps := requestTimestamps api1 @ [t]\<rparr>, sent @ [(t, highPriority)])"
      using False rest_run(3) by (simp add: api2_def)
    have ord: "sorted (now # concat (map clock_readings (Attempt highPriority now now # Wake now1 # es)))"
      using rest_run(2) later by fastforce
    have ret: "waitForRateLimit highPriority late now api = Some (t, api1)"
      using unfold rest_run(1) by simp
    show ?thesis
      by (rule exI [of _ t], rule exI [of _ api1],
          rule exI [of _ "Attempt highPriority now now # Wake now1 # es"])
         (intro conjI ret ord run)
  qed
qed

lemma request_with_key:
  assumes "apiKey api = Some key" and "key \<noteq> []"
    and "waitForRateLimit highPriority late now api = Some (t, api1)"
  shows "\<exists>answer. request highPriority late outcome now api =
           Some (answer, api1\<lparr>requestTimestamps := requestTimestamps api1 @ [t]\<rparr>)"
  using assms by (simp add: request_def Let_def)

text \<open>
  Claim C2. Whatever the callers and however their waits interleave, as long as the clock
  never goes back: of the requests sent, at most \<open>RATE_LIMIT\<close> = 10 lie in any trailing
  60-second window, and at most \<open>RATE_LIMIT - RATE_LIMIT_BUFFER\<close> = 8 of those sent without
  high priority. The waiting loop of a caller always returns, and what it does to the
  client is such a run of attempts and wake-ups; a refused caller sleeps until 100 ms
  after the oldest timestamp has left the window (or later, if the timer is late), the
  oldest timestamp is then gone, and the caller tries again. With a key configured,
  \<open>request\<close> records the timestamp of the successful attempt whatever the outcome of the
  transmission, a failure included.
\<close>

theorem rate_limit_window:
  assumes "sorted (concat (map clock_readings es))" and "requestTimestamps api = []"
  shows "length (in_window T (snd (api_run es (api, [])))) \<le> RATE_LIMIT
    \<and> length (normal_in_window T (snd (api_run es (api, [])))) \<le> RATE_LIMIT - RATE_LIMIT_BUFFER
    \<and> RATE_LIMIT = 10 \<and> RATE_LIMIT - RATE_LIMIT_BUFFER = 8
    \<and> (\<exists>t api1 es1.
          waitForRateLimit highPriority late now client = Some (t, api1)
          \<and> sorted (now # concat (map clock_readings es1))
          \<and> api_run es1 (client, sent) =
              (api1\<lparr>requestTimestamps := requestTimestamps api1 @ [t]\<rparr>,
               sent @ [(t, highPriority)])
          \<and> (apiKey client \<noteq> None \<and> apiKey client \<noteq> Some [] \<longrightarrow>
               (\<exists>answer. request highPriority late outcome now client =
                  Some (answer, api1\<lparr>requestTimestamps := requestTimestamps api1 @ [t]\<rparr>))))
    \<and> (\<not> fst (canMakeRequest highPriority now client) \<longrightarrow>
         (\<exists>oldest rest.
            requestTimestamps (snd (canMakeRequest highPriority now client)) = oldest # rest
            \<and> now < oldest + 60000
            \<and> waitForRateLimit highPriority late now client =
                waitForRateLimit highPriority (tl late)
                  (oldest + 60100 + (case late of [] \<Rightarrow> 0 | l # ls \<Rightarrow> int l))
                  (cleanExpiredTimestamps
                     (oldest + 60100 + (case late of [] \<Rightarrow> 0 | l # ls \<Rightarrow> int l))
                     (snd (canMakeRequest highPriority now client)))
            \<and> oldest \<notin> set (requestTimestamps
                  (cleanExpiredTimestamps
                     (oldest + 60100 + (case late of [] \<Rightarrow> 0 | l # ls \<Rightarrow> int l))
                     (snd (canMakeRequest highPriority now client))))))"
proof -
  have window: "\<forall>T. length (in_window T (snd (api_run es (api, [])))) \<le> RATE_LIMIT
      \<and> length (normal_in_window T (snd (api_run es (api, [])))) \<le> RATE_LIMIT - RATE_LIMIT_BUFFER"
  proof (cases "concat (map clock_readings es)")
    case Nil
    have "es = []"
    proof (cases es)
      case (Cons e es')
      then show ?thesis using Nil by (cases e) auto
    qed simp
    then show ?thesis
      by (simp add: in_window_def normal_in_window_def)
  next
    case (Cons c cs)
    have ord: "sorted (c # concat (map clock_readings es))"
      using assms(1) by (simp add: Cons)
    show ?thesis
      by (rule api_run_keeps [OF ord])
         (simp_all add: assms(2) in_window_def normal_in_window_def)
  qed
  obtain t api1 es1 where loop:
    "waitForRateLimit highPriority late now client = Some (t, api1)"
    "sorted (now # concat (map clock_readings es1))"
    "api_run es1 (client, sent) =
       (api1\<lparr>requestTimestamps := requestTimestamps api1 @ [t]\<rparr>, sent @ [(t, highPriority)])"
    using waitForRateLimit_is_run [of highPriority late now client sent] by blast
  have req: "\<exists>answer. request highPriority late outcome now client =
      Some (answer, api1\<lparr>requestTimestamps := requestTimestamps api1 @ [t]\<rparr>)"
    if "apiKey client \<noteq> None \<and> apiKey client \<noteq> Some []"
  proof -
    from that obtain key where "apiKey client = Some key" "key \<noteq> []"
      by (cases "apiKey client") simp_all
    then show ?thesis
      using request_with_key [OF _ _ loop(1)] by blast
  qed
  have looping: "\<exists>t api1 es1.
          waitForRateLimit highPriority late now client = Some (t, api1)
          \<and> sorted (now # concat (map clock_readings es1))
          \<and> api_run es1 (client, sent) =
              (api1\<lparr>requestTimestamps := requestTimestamps api1 @ [t]\<rparr>,
               sent @ [(t, highPriority)])
          \<and> (apiKey client \<noteq> None \<and> apiKey client \<noteq> Some [] \<longrightarrow>
               (\<exists>answer. request highPriority late outcome now client =
                  Some (answer, api1\<lparr>requestTimestamps := requestTimestamps api1 @ [t]\<rparr>)))"
    using loop req by blast
  have waiting: "\<exists>oldest rest.
            requestTimestamps (snd (canMakeRequest highPriority now client)) = oldest # rest
            \<and> now < oldest + 60000
            \<and> waitForRateLimit highPriority late now client =
                waitForRateLimit highPriority (tl late)
                  (oldest + 60100 + (case late of [] \<Rightarrow> 0 | l # ls \<Rightarrow> int l))
                  (cleanExpiredTimestamps
                     (oldest + 60100 + (case late of [] \<Rightarrow> 0 | l # ls \<Rightarrow> int l))
                     (snd (canMakeRequest highPriority now client)))
            \<and> oldest \<notin> set (requestTimestamps
                  (cleanExpiredTimestamps
                     (oldest + 60100 + (case late of [] \<Rightarrow> 0 | l # ls \<Rightarrow> int l))
                     (snd (canMakeRequest highPriority now client))))"
    if refused: "\<not> fst (canMakeRequest highPriority now client)"
  proof -
    obtain oldest rest where
      ts: "requestTimestamps (snd (canMakeRequest highPriority now client)) = oldest # rest"
      using refused_has_oldest [OF refused] by blast
    have gone: "oldest \<notin> set (requestTimestamps
        (cleanExpiredTimestamps
           (oldest + 60100 + (case late of [] \<Rightarrow> 0 | l # ls \<Rightarrow> int l))
           (snd (canMakeRequest highPriority now client))))"
      by (cases late) (simp_all add: cleanExpiredTimestamps_def Let_def)
    show ?thesis
      using ts waitForRateLimit_refused(1) [OF refused ts, of late]
        waitForRateLimit_refused(2) [OF refused ts] gone
      by blast
  qed
  show ?thesis
    using window looping waiting limit_values by blast
qed

theorem rate_limit_window_witness:
  "sorted (concat (map clock_readings burst))
   \<and> map snd (snd (api_run burst (fresh_api, []))) =
       [False, False, False, False, False, False, False, False, True, True, False]
   \<and> length (in_window 0 (snd (api_run burst (fresh_api, [])))) = 10
   \<and> length (normal_in_window 0 (snd (api_run burst (fresh_api, [])))) = 8
   \<and> length (in_window 60100 (snd (api_run burst (fresh_api, [])))) = 1
   \<and> \<not> fst (canMakeRequest False 30000 full_api)
   \<and> waitForRateLimit False [] 30000 full_api =
       Some (60100, full_api\<lparr>requestTimestamps := [1000, 2000, 3000, 4000, 5000, 6000, 7000]\<rparr>)
   \<and> request False [] (NetworkFailure ''offline'') 30000 full_api =
       Some (Inl (Failure ''offline''),
             full_api\<lparr>requestTimestamps := [1000, 2000, 3000, 4000, 5000, 6000, 7000, 60100]\<rparr>)"
proof -
  have a: "sorted (concat (map clock_readings burst))"
    by (simp add: burst_def)
  have b: "requestTimestamps fresh_api = []"
    by (simp add: fresh_api_def)
  have log: "snd (api_run burst (fresh_api, [])) =
      [(0, False), (0, False), (0, False), (0, False), (0, False), (0, False), (0, False),
       (0, False), (0, True), (0, True), (60100, False)]"
    by (simp add: burst_def fresh_api_def canMakeRequest_def cleanExpiredTimestamps_def
        RATE_LIMIT_def RATE_LIMIT_BUFFER_def Let_def)
  have refused: "\<not> fst (canMakeRequest False 30000 full_api)"
    by (simp add: full_api_def canMakeRequest_def cleanExpiredTimestamps_def
        RATE_LIMIT_def RATE_LIMIT_BUFFER_def Let_def)
  have wait: "waitForRateLimit False [] 30000 full_api =
       Some (60100, full_api\<lparr>requestTimestamps := [1000, 2000, 3000, 4000, 5000, 6000, 7000]\<rparr>)"
    by (simp add: waitForRateLimit.simps [of False _ 30000] waitForRateLimit.simps [of False _ 60100]
        full_api_def canMakeRequest_def cleanExpiredTimestamps_def
        RATE_LIMIT_def RATE_LIMIT_BUFFER_def Let_def)
  show ?thesis
    using rate_limit_window [OF a b, of 0 False "[]" 30000 full_api "[]" "NetworkFailure ''offline''"]
      refused wait
    by (simp add: a log in_window_def normal_in_window_def)
       (simp add: request_def full_api_def)
qed

end
